theory Spec2Isabelle
  imports Main "HOL-Library.Word" "HOL-Library.Signed_Division"
begin

section \<open>Strassen matrix multiplication (strassen-algo/matrix-mult.c)\<close>

text \<open>
  Conventions of the embedding.
  \<^item> The element type \<open>int\<close> of the C source is a 32-bit two's complement word:
    \<open>+\<close>, \<open>-\<close>, \<open>*\<close> and unary minus wrap around, comparisons read the word with
    \<open>sint\<close>. Division truncates towards zero. A division by zero, and the one
    quotient that does not fit (the minimum divided by \<open>-1\<close>), have no result: the
    program stops there without any message, which is the error \<open>DivisionUndefined\<close>.
  \<^item> \<open>exit(EXIT_FAILURE)\<close> in \<open>check_overflow\<close> is the error \<open>ArithmeticOverflow\<close>,
    carrying the operation and the two operands that the message prints;
    \<open>exit(EXIT_FAILURE)\<close> after the size test of \<open>main\<close> is the error \<open>InputTooLarge\<close>.
  \<^item> A \<open>struct matrix\<close> that is declared without initialiser holds whatever its
    place on the stack held before. These contents are a parameter: functions with
    such a local take the value it starts with, and \<open>strassen_matrix_multiply\<close> takes
    a \<open>stack\<close> that gives this value for every local struct of every call below it.
    Reading a field that was never assigned yields the value from the stack and
    the program carries on.
  \<^item> Indexing outside the 16 by 16 grid is the error \<open>OutOfBounds\<close>. Passing or
    returning a whole struct copies it as it is.
  \<^item> The order in which the two arguments of a call are evaluated is left open by
    the language; it is a parameter too, one choice for each call in the source.
  \<^item> Dimensions, loop counters and offsets are mathematical integers; \<open>n/2\<close> is
    \<open>n sdiv 2\<close>.
  \<^item> The recursion of \<open>strassen_matrix_multiply\<close> carries a bound on its depth;
    \<open>None\<close> says that the bound was reached before the call returned.
\<close>

subsection \<open>Values and errors\<close>

type_synonym cint = "32 word"

datatype opkind = Addition | Multiplication

datatype error =
  ArithmeticOverflow opkind cint cint | OutOfBounds | DivisionUndefined | InputTooLarge

fun ebind :: "error + 'a \<Rightarrow> ('a \<Rightarrow> error + 'b) \<Rightarrow> error + 'b" where
  "ebind (Inl e) f = Inl e"
| "ebind (Inr v) f = f v"

primrec for_each :: "'a list \<Rightarrow> ('a \<Rightarrow> 's \<Rightarrow> error + 's) \<Rightarrow> 's \<Rightarrow> error + 's" where
  "for_each [] body s = Inr s"
| "for_each (x # xs) body s = ebind (body x s) (for_each xs body)"

primrec first_error :: "(error + unit) list \<Rightarrow> error + unit" where
  "first_error [] = Inr ()"
| "first_error (x # xs) = ebind x (\<lambda>_. first_error xs)"

subsection \<open>Bounded arithmetic: \<open>check_overflow\<close>\<close>

definition representable :: "int \<Rightarrow> bool" where
  "representable k \<longleftrightarrow> - (2 ^ 31) \<le> k \<and> k < 2 ^ 31"

text \<open>The operator \<open>/\<close> on \<open>int\<close>.\<close>

definition c_div :: "cint \<Rightarrow> cint \<Rightarrow> error + cint" where
  "c_div x y =
     (if y = 0 \<or> (x = - 2147483648 \<and> y = - 1) then Inl DivisionUndefined
      else Inr (word_of_int (sint x sdiv sint y)))"

text \<open>
  Lines 78-103. In \<open>a != 0 && (s/a != b)\<close> the quotient is computed only when \<open>a\<close> is
  not zero, and the second test is reached only when the first one is false.
\<close>

definition check_overflow :: "cint \<Rightarrow> cint \<Rightarrow> bool \<Rightarrow> bool \<Rightarrow> error + unit" where
  "check_overflow a b add mult =
     (if add \<and> (0 <s a \<and> 0 <s b) \<and> a + b <s 0
        then Inl (ArithmeticOverflow Addition a b)
      else if add \<and> (a <s 0 \<and> b <s 0) \<and> 0 <s a + b
        then Inl (ArithmeticOverflow Addition a b)
      else if \<not> mult then Inr ()
      else
        ebind (if a \<noteq> 0 then ebind (c_div (a * b) a) (\<lambda>q. Inr (q \<noteq> b)) else Inr False)
          (\<lambda>differs.
        if differs then Inl (ArithmeticOverflow Multiplication a b)
        else
          ebind (if b \<noteq> 0 then ebind (c_div (a * b) b) (\<lambda>q. Inr (q \<noteq> a)) else Inr False)
            (\<lambda>differs.
          if differs then Inl (ArithmeticOverflow Multiplication a b) else Inr ())))"

subsection \<open>\<open>struct matrix\<close>\<close>

definition NUM_ELEMS :: int where
  "NUM_ELEMS = 16"

record matrix =
  m :: "int \<Rightarrow> int \<Rightarrow> cint"
  i :: int
  j :: int

definition in_bounds :: "int \<Rightarrow> int \<Rightarrow> bool" where
  "in_bounds r c \<longleftrightarrow> 0 \<le> r \<and> r < NUM_ELEMS \<and> 0 \<le> c \<and> c < NUM_ELEMS"

text \<open>\<open>x.m[r][c]\<close> read, and \<open>x.m[r][c] = v\<close>.\<close>

definition load :: "matrix \<Rightarrow> int \<Rightarrow> int \<Rightarrow> error + cint" where
  "load x r c = (if \<not> in_bounds r c then Inl OutOfBounds else Inr (m x r c))"

definition wr_at :: "matrix \<Rightarrow> int \<Rightarrow> int \<Rightarrow> cint \<Rightarrow> matrix" where
  "wr_at x r c v = x\<lparr>m := (m x)(r := (m x r)(c := v))\<rparr>"

definition store :: "matrix \<Rightarrow> int \<Rightarrow> int \<Rightarrow> cint \<Rightarrow> error + matrix" where
  "store x r c v = (if \<not> in_bounds r c then Inl OutOfBounds else Inr (wr_at x r c v))"

text \<open>\<open>x.m[x.i + r][x.j + c]\<close> read, and \<open>x.m[x.i + r][x.j + c] = v\<close>.\<close>

definition elem :: "matrix \<Rightarrow> int \<Rightarrow> int \<Rightarrow> error + cint" where
  "elem x r c = load x (i x + r) (j x + c)"

definition put_view :: "matrix \<Rightarrow> int \<Rightarrow> int \<Rightarrow> cint \<Rightarrow> error + matrix" where
  "put_view x r c v = store x (i x + r) (j x + c) v"

subsection \<open>\<open>copy_elems_to_quad\<close>, \<open>add\<close>, \<open>sub\<close>\<close>

definition copy_elems_to_quad :: "matrix \<Rightarrow> matrix \<Rightarrow> int \<Rightarrow> error + matrix" where
  "copy_elems_to_quad m1 m2 num_elems =
     for_each [0..num_elems - 1] (\<lambda>r.
       for_each [0..num_elems - 1] (\<lambda>c s.
         ebind (load m2 (i s + r) (j s + c)) (put_view s r c))) m1"

text \<open>Lines 125-126 and 147-148: the check of one cell pair, then its sum (difference).\<close>

definition add_cell :: "matrix \<Rightarrow> matrix \<Rightarrow> int \<Rightarrow> int \<Rightarrow> error + cint" where
  "add_cell a b r c =
     ebind (elem a r c) (\<lambda>x. ebind (elem b r c) (\<lambda>y.
     ebind (check_overflow x y True False) (\<lambda>_. Inr (x + y))))"

definition sub_cell :: "matrix \<Rightarrow> matrix \<Rightarrow> int \<Rightarrow> int \<Rightarrow> error + cint" where
  "sub_cell a b r c =
     ebind (elem a r c) (\<lambda>x. ebind (elem b r c) (\<lambda>y.
     ebind (check_overflow x (- y) True False) (\<lambda>_. Inr (x - y))))"

text \<open>
  Lines 114-156. The first argument \<open>m0\<close> is what the local \<open>m\<close> holds when the function is
  entered; the source assigns its two offsets and the cells of the view, nothing else.
\<close>

definition add :: "matrix \<Rightarrow> matrix \<Rightarrow> matrix \<Rightarrow> int \<Rightarrow> error + matrix" where
  "add m0 a b n =
     for_each [0..n - 1] (\<lambda>r.
       for_each [0..n - 1] (\<lambda>c s. ebind (add_cell a b r c) (put_view s r c)))
     (m0\<lparr>i := i a, j := j a\<rparr>)"

definition sub :: "matrix \<Rightarrow> matrix \<Rightarrow> matrix \<Rightarrow> int \<Rightarrow> error + matrix" where
  "sub m0 a b n =
     for_each [0..n - 1] (\<lambda>r.
       for_each [0..n - 1] (\<lambda>c s. ebind (sub_cell a b r c) (put_view s r c)))
     (m0\<lparr>i := i a, j := j a\<rparr>)"

subsection \<open>\<open>strassen_matrix_multiply\<close>\<close>

text \<open>Operand expressions of the base case: each reads its cells when it is evaluated.\<close>

definition eplus :: "error + cint \<Rightarrow> error + cint \<Rightarrow> error + cint" where
  "eplus x y = ebind x (\<lambda>u. ebind y (\<lambda>v. Inr (u + v)))"

definition eminus :: "error + cint \<Rightarrow> error + cint \<Rightarrow> error + cint" where
  "eminus x y = ebind x (\<lambda>u. ebind y (\<lambda>v. Inr (u - v)))"

definition etimes :: "error + cint \<Rightarrow> error + cint \<Rightarrow> error + cint" where
  "etimes x y = ebind x (\<lambda>u. ebind y (\<lambda>v. Inr (u * v)))"

definition eneg :: "error + cint \<Rightarrow> error + cint" where
  "eneg x = ebind x (\<lambda>u. Inr (- u))"

definition chk :: "error + cint \<Rightarrow> error + cint \<Rightarrow> bool \<Rightarrow> bool \<Rightarrow> error + unit" where
  "chk x y is_add is_mult = ebind x (\<lambda>u. ebind y (\<lambda>v. check_overflow u v is_add is_mult))"

text \<open>Lines 196-233: the checks on the operands of \<open>m1\<close> .. \<open>m7\<close>.\<close>

definition operand_checks :: "matrix \<Rightarrow> matrix \<Rightarrow> error + unit" where
  "operand_checks a b = first_error [
     chk (elem a 0 0) (elem a 1 1) True False,
     chk (elem b 0 0) (elem b 1 1) True False,
     chk (eplus (elem a 0 0) (elem a 1 1)) (eplus (elem b 0 0) (elem b 1 1)) False True,
     chk (elem a 1 0) (elem a 1 1) True False,
     chk (eplus (elem a 1 0) (elem a 1 1)) (elem b 0 0) False True,
     chk (elem b 0 1) (eneg (elem b 1 1)) True False,
     chk (elem a 0 0) (eminus (elem b 0 1) (elem b 1 1)) False True,
     chk (elem b 1 0) (eneg (elem b 0 0)) True False,
     chk (elem a 1 1) (eminus (elem b 1 0) (elem b 0 0)) False True,
     chk (elem a 0 0) (elem a 0 1) True False,
     chk (eplus (elem a 0 0) (elem a 0 1)) (elem b 1 1) False True,
     chk (elem a 1 0) (eneg (elem a 0 0)) True False,
     chk (elem b 0 0) (elem b 0 1) True False,
     chk (eminus (elem a 1 0) (elem a 0 0)) (eplus (elem b 0 0) (elem b 0 1)) False True,
     chk (elem a 0 1) (eneg (elem a 1 1)) True False,
     chk (elem b 1 0) (elem b 1 1) True False,
     chk (eminus (elem a 0 1) (elem a 1 1)) (eplus (elem b 1 0) (elem b 1 1)) False True]"

text \<open>Lines 254-268: the checks on the sums of the seven products.\<close>

definition result_checks ::
  "cint \<Rightarrow> cint \<Rightarrow> cint \<Rightarrow> cint \<Rightarrow> cint \<Rightarrow> cint \<Rightarrow> cint \<Rightarrow> error + unit" where
  "result_checks m1 m2 m3 m4 m5 m6 m7 = first_error [
     check_overflow m1 m4 True False,
     check_overflow (m1 + m4) (- m5) True False,
     check_overflow (m1 + m4 - m5) m7 True False,
     check_overflow m3 m5 True False,
     check_overflow m2 m4 True False,
     check_overflow m1 (- m2) True False,
     check_overflow (m1 - m2) m3 True False,
     check_overflow (m1 - m2 + m3) m6 True False]"

text \<open>
  Lines 172-283: the branch \<open>n == 2\<close>. The first argument \<open>c0\<close> is what the local \<open>c\<close>
  holds when the block is entered.
\<close>

definition strassen_2x2 :: "matrix \<Rightarrow> matrix \<Rightarrow> matrix \<Rightarrow> error + matrix" where
  "strassen_2x2 c0 a b =
     ebind (operand_checks a b) (\<lambda>_.
     ebind (etimes (eplus (elem a 0 0) (elem a 1 1)) (eplus (elem b 0 0) (elem b 1 1))) (\<lambda>m1.
     ebind (etimes (eplus (elem a 1 0) (elem a 1 1)) (elem b 0 0)) (\<lambda>m2.
     ebind (etimes (elem a 0 0) (eminus (elem b 0 1) (elem b 1 1))) (\<lambda>m3.
     ebind (etimes (elem a 1 1) (eminus (elem b 1 0) (elem b 0 0))) (\<lambda>m4.
     ebind (etimes (eplus (elem a 0 0) (elem a 0 1)) (elem b 1 1)) (\<lambda>m5.
     ebind (etimes (eminus (elem a 1 0) (elem a 0 0)) (eplus (elem b 0 0) (elem b 0 1))) (\<lambda>m6.
     ebind (etimes (eminus (elem a 0 1) (elem a 1 1)) (eplus (elem b 1 0) (elem b 1 1))) (\<lambda>m7.
     ebind (result_checks m1 m2 m3 m4 m5 m6 m7) (\<lambda>_.
     ebind (put_view (c0\<lparr>i := i a, j := j a\<rparr>) 0 0 (m1 + m4 - m5 + m7)) (\<lambda>c.
     ebind (put_view c 0 1 (m3 + m5)) (\<lambda>c.
     ebind (put_view c 1 0 (m2 + m4)) (\<lambda>c.
     put_view c 1 1 (m1 - m2 + m3 + m6)))))))))))))"

text \<open>
  Lines 285-307: a quadrant is a local struct (holding \<open>q0\<close> at first) whose offsets are
  set to those of the parent plus \<open>(di, dj)\<close>, and which \<open>copy_elems_to_quad\<close> then fills.
\<close>

definition quad :: "matrix \<Rightarrow> matrix \<Rightarrow> int \<Rightarrow> int \<Rightarrow> int \<Rightarrow> error + matrix" where
  "quad q0 a di dj h = copy_elems_to_quad (q0\<lparr>i := i a + di, j := j a + dj\<rparr>) a h"

text \<open>
  Lines 335-351: the four loops that copy \<open>Q1\<close> .. \<open>Q4\<close> into the local \<open>res\<close> (holding
  \<open>res0\<close> at first). The second counter of each loop (\<open>i\<close>, \<open>j\<close> in the source) is the
  first one minus its start. No line assigns \<open>res.i\<close> or \<open>res.j\<close>.
\<close>

definition assemble ::
  "matrix \<Rightarrow> matrix \<Rightarrow> matrix \<Rightarrow> matrix \<Rightarrow> matrix \<Rightarrow> int \<Rightarrow> error + matrix" where
  "assemble res0 Q1 Q2 Q3 Q4 n =
     (let h = n sdiv 2 in
      ebind (for_each [0..h - 1] (\<lambda>r. for_each [0..h - 1] (\<lambda>c s.
               ebind (elem Q1 r c) (store s r c))) res0) (\<lambda>res.
      ebind (for_each [0..h - 1] (\<lambda>r. for_each [h..n - 1] (\<lambda>c s.
               ebind (elem Q2 r (c - h)) (store s r c))) res) (\<lambda>res.
      ebind (for_each [h..n - 1] (\<lambda>r. for_each [0..h - 1] (\<lambda>c s.
               ebind (elem Q3 (r - h) c) (store s r c))) res) (\<lambda>res.
      for_each [h..n - 1] (\<lambda>r. for_each [h..n - 1] (\<lambda>c s.
               ebind (elem Q4 (r - h) (c - h)) (store s r c))) res))))"

text \<open>Sequencing of computations that may also run out of recursion depth.\<close>

fun obind :: "(error + 'a) option \<Rightarrow> ('a \<Rightarrow> (error + 'b) option) \<Rightarrow> (error + 'b) option" where
  "obind None f = None"
| "obind (Some (Inl e)) f = Some (Inl e)"
| "obind (Some (Inr v)) f = f v"

text \<open>
  A call \<open>f(x, y)\<close> whose arguments are themselves calls of \<open>add\<close> or \<open>sub\<close>: both are
  evaluated before \<open>f\<close> is entered, the second one first when \<open>second_first\<close> holds.
\<close>

definition call2 ::
  "bool \<Rightarrow> (matrix \<Rightarrow> matrix \<Rightarrow> (error + matrix) option) \<Rightarrow> error + matrix \<Rightarrow> error + matrix
     \<Rightarrow> (error + matrix) option" where
  "call2 second_first f x y =
     (if second_first then obind (Some y) (\<lambda>y'. obind (Some x) (\<lambda>x'. f x' y'))
      else obind (Some x) (\<lambda>x'. obind (Some y) (\<lambda>y'. f x' y')))"

text \<open>
  The stack below a call: \<open>junk stk x\<close> is what the uninitialised local struct named \<open>x\<close>
  of this call holds, \<open>frame stk x\<close> is the stack as the call named \<open>x\<close> finds it. The
  locals are named as in the source; the local \<open>m\<close> of a call of \<open>add\<close> or \<open>sub\<close> is named
  after the variable that the call helps to compute (\<open>M1.a\<close> and \<open>M1.b\<close> for the two
  arguments of the call that gives \<open>M1\<close>; \<open>Q1.1\<close>, \<open>Q1.2\<close> and \<open>Q1\<close> for the three nested
  calls that give \<open>Q1\<close>, innermost first).
\<close>

type_synonym stack = "string list \<Rightarrow> matrix"

definition junk :: "stack \<Rightarrow> string \<Rightarrow> matrix" where
  "junk stk x = stk [x]"

definition frame :: "stack \<Rightarrow> string \<Rightarrow> stack" where
  "frame stk x = (\<lambda>path. stk (x # path))"

text \<open>Lines 163-352. \<open>second_first\<close> gives the order of evaluation at each call.\<close>

fun strassen_matrix_multiply ::
  "(string \<Rightarrow> bool) \<Rightarrow> stack \<Rightarrow> nat \<Rightarrow> matrix \<Rightarrow> matrix \<Rightarrow> int \<Rightarrow> (error + matrix) option"
where
  "strassen_matrix_multiply second_first stk 0 a b n = None"
| "strassen_matrix_multiply second_first stk (Suc depth) a b n =
     (if n = 2 then Some (strassen_2x2 (junk stk ''c'') a b)
      else
        let h = n sdiv 2;
            rec = (\<lambda>x. call2 (second_first x)
                    (\<lambda>u v. strassen_matrix_multiply second_first (frame stk x) depth u v h)) in
        obind (Some (quad (junk stk ''A00'') a 0 0 h)) (\<lambda>A00.
        obind (Some (quad (junk stk ''A01'') a 0 h h)) (\<lambda>A01.
        obind (Some (quad (junk stk ''A10'') a h 0 h)) (\<lambda>A10.
        obind (Some (quad (junk stk ''A11'') a h h h)) (\<lambda>A11.
        obind (Some (quad (junk stk ''B00'') b 0 0 h)) (\<lambda>B00.
        obind (Some (quad (junk stk ''B01'') b 0 h h)) (\<lambda>B01.
        obind (Some (quad (junk stk ''B10'') b h 0 h)) (\<lambda>B10.
        obind (Some (quad (junk stk ''B11'') b h h h)) (\<lambda>B11.
        obind (rec ''M1'' (add (junk stk ''M1.a'') A00 A11 h) (add (junk stk ''M1.b'') B00 B11 h))
          (\<lambda>M1.
        obind (rec ''M2'' (add (junk stk ''M2.a'') A10 A11 h) (Inr B00)) (\<lambda>M2.
        obind (rec ''M3'' (Inr A00) (sub (junk stk ''M3.b'') B01 B11 h)) (\<lambda>M3.
        obind (rec ''M4'' (Inr A11) (sub (junk stk ''M4.b'') B10 B00 h)) (\<lambda>M4.
        obind (rec ''M5'' (add (junk stk ''M5.a'') A00 A01 h) (Inr B11)) (\<lambda>M5.
        obind (rec ''M6'' (sub (junk stk ''M6.a'') A10 A00 h) (add (junk stk ''M6.b'') B00 B01 h))
          (\<lambda>M6.
        obind (rec ''M7'' (sub (junk stk ''M7.a'') A01 A11 h) (add (junk stk ''M7.b'') B10 B11 h))
          (\<lambda>M7.
        Some (
          ebind (ebind (ebind (add (junk stk ''Q1.1'') M1 M4 h)
                   (\<lambda>t. sub (junk stk ''Q1.2'') t M5 h)) (\<lambda>t. add (junk stk ''Q1'') t M7 h)) (\<lambda>Q1.
          ebind (add (junk stk ''Q2'') M3 M5 h) (\<lambda>Q2.
          ebind (add (junk stk ''Q3'') M2 M4 h) (\<lambda>Q3.
          ebind (ebind (ebind (sub (junk stk ''Q4.1'') M1 M2 h)
                   (\<lambda>t. add (junk stk ''Q4.2'') t M3 h)) (\<lambda>t. add (junk stk ''Q4'') t M6 h)) (\<lambda>Q4.
          assemble (junk stk ''res'') Q1 Q2 Q3 Q4 n)))))))))))))))))))))"

subsection \<open>The call from \<open>main\<close>\<close>

text \<open>Lines 485-494: the two tests on the argument of the option \<open>-n\<close>.\<close>

definition check_n :: "int \<Rightarrow> error + unit" where
  "check_n n =
     (if n > NUM_ELEMS then Inl InputTooLarge
      else if n > 16 then Inl InputTooLarge
      else Inr ())"

text \<open>
  Lines 485-518: \<open>main\<close> tests \<open>n\<close>, has the two matrices filled, and calls
  \<open>strassen_matrix_multiply\<close> on them.
\<close>

definition main_multiply ::
  "(string \<Rightarrow> bool) \<Rightarrow> stack \<Rightarrow> nat \<Rightarrow> matrix \<Rightarrow> matrix \<Rightarrow> int \<Rightarrow> (error + matrix) option"
where
  "main_multiply second_first stk depth m1 m2 n =
     obind (Some (check_n n)) (\<lambda>_. strassen_matrix_multiply second_first stk depth m1 m2 n)"

subsection \<open>The standard multiplication of \<open>main\<close> (lines 527-537)\<close>

definition multiply_naive :: "matrix \<Rightarrow> matrix \<Rightarrow> matrix \<Rightarrow> int \<Rightarrow> error + matrix" where
  "multiply_naive m1 m2 m3 n =
     for_each [0..n - 1] (\<lambda>r.
       for_each [0..n - 1] (\<lambda>c s.
         ebind (store s r c 0)
           (for_each [0..n - 1] (\<lambda>k s'.
              ebind (load s' r c) (\<lambda>acc. ebind (load m1 r k) (\<lambda>x. ebind (load m2 k c) (\<lambda>y.
              store s' r c (acc + x * y)))))))) m3"

subsection \<open>Input matrices as \<open>main\<close> prepares them\<close>

text \<open>
  Lines 472-474 set all cells to zero; \<open>read_from_file\<close> and \<open>generate_random\<close> set
  both offsets to zero and fill the top left corner row by row.
\<close>

definition input_cell :: "cint list list \<Rightarrow> int \<Rightarrow> int \<Rightarrow> cint" where
  "input_cell rows r c =
     (if in_bounds r c \<and> nat r < length rows \<and> nat c < length (rows ! nat r)
      then rows ! nat r ! nat c else 0)"

definition input_matrix :: "cint list list \<Rightarrow> matrix" where
  "input_matrix rows = \<lparr>m = input_cell rows, i = 0, j = 0\<rparr>"

subsection \<open>Two stacks and two orders of evaluation\<close>

text \<open>
  A stack that holds zeros everywhere, as a fresh one does, and a stack whose every
  structure holds ones in its cells and in both offsets, left there by earlier calls.
\<close>

definition zeroed_stack :: stack where
  "zeroed_stack path = \<lparr>m = (\<lambda>r c. 0), i = 0, j = 0\<rparr>"

definition stale_stack :: stack where
  "stale_stack path = \<lparr>m = (\<lambda>r c. 1), i = 1, j = 1\<rparr>"

text \<open>
  A stack of zeros, except that the local \<open>res\<close> of the outermost call holds sevens in
  its cells and the offsets \<open>(11, 13)\<close>.
\<close>

definition marked_stack :: stack where
  "marked_stack path =
     (if path = [''res''] then \<lparr>m = (\<lambda>r c. 7), i = 11, j = 13\<rparr>
      else \<lparr>m = (\<lambda>r c. 0), i = 0, j = 0\<rparr>)"

text \<open>
  In every call below the outermost one, the local \<open>res\<close> holds zero in both offsets.
\<close>

definition clean_below :: "stack \<Rightarrow> bool" where
  "clean_below stk \<longleftrightarrow>
     (\<forall>x path. i (stk (x # path @ [''res''])) = 0 \<and> j (stk (x # path @ [''res''])) = 0)"

definition left_to_right :: "string \<Rightarrow> bool" where
  "left_to_right x = False"

definition right_to_left :: "string \<Rightarrow> bool" where
  "right_to_left x = True"

subsection \<open>Loops that fill cells\<close>

text \<open>
  Every loop nest of the source visits a list of cells in order, computes a value for the
  cell and stores it. \<open>fill\<close> is that pattern with the list of cells, the value and
  the target position as parameters.
\<close>

definition fill ::
  "('p \<Rightarrow> error + cint) \<Rightarrow> ('p \<Rightarrow> int \<times> int) \<Rightarrow> 'p list \<Rightarrow> matrix \<Rightarrow> error + matrix" where
  "fill val loc ps s =
     for_each ps (\<lambda>p s'. ebind (val p) (store s' (fst (loc p)) (snd (loc p)))) s"

text \<open>The cells \<open>[0, n)\<close> by \<open>[0, n)\<close> in row-major order.\<close>

definition cells :: "int \<Rightarrow> (int \<times> int) list" where
  "cells n = List.product [0..n - 1] [0..n - 1]"

text \<open>
  \<open>view_fill\<close> is \<open>fill\<close> on the cells of the view of size \<open>n\<close> of the struct itself,
  which is what \<open>add\<close>, \<open>sub\<close> and the quadrant copy do.
\<close>

definition view_fill :: "(int \<Rightarrow> int \<Rightarrow> error + cint) \<Rightarrow> int \<Rightarrow> matrix \<Rightarrow> error + matrix" where
  "view_fill val n s =
     fill (\<lambda>p. val (fst p) (snd p)) (\<lambda>p. (i s + fst p, j s + snd p)) (cells n) s"

text \<open>A view of size \<open>h\<close> whose cell \<open>(r, c)\<close> lies in the grid and reads \<open>F r c\<close>.\<close>

definition view_is :: "matrix \<Rightarrow> int \<Rightarrow> (int \<Rightarrow> int \<Rightarrow> cint) \<Rightarrow> bool" where
  "view_is x h F \<longleftrightarrow>
     (\<forall>r c. 0 \<le> r \<and> r < h \<and> 0 \<le> c \<and> c < h \<longrightarrow> elem x r c = Inr (F r c))"

text \<open>The cell \<open>(r, c)\<close> of the product of two \<open>n\<close> by \<open>n\<close> matrices of words.\<close>

definition dot ::
  "(int \<Rightarrow> int \<Rightarrow> cint) \<Rightarrow> (int \<Rightarrow> int \<Rightarrow> cint) \<Rightarrow> int \<Rightarrow> int \<Rightarrow> int \<Rightarrow> cint" where
  "dot f g n r c = sum_list (map (\<lambda>k. f r k * g k c) [0..n - 1])"

section \<open>Bounded arithmetic\<close>

subsection \<open>Integer facts\<close>

lemma dvd_small_zero:
  fixes r :: int
  assumes "2 ^ 32 dvd r" "\<bar>r\<bar> < 2 ^ 32"
  shows "r = 0"
proof (rule ccontr)
  assume "r \<noteq> 0"
  with assms(1) have "\<bar>2 ^ 32 :: int\<bar> \<le> \<bar>r\<bar>" by (rule dvd_imp_le_int[rotated])
  with assms(2) show False by simp
qed

lemma sdiv_exact:
  fixes A B :: int
  assumes "A \<noteq> 0"
  shows "(A * B) sdiv A = B"
proof -
  have "\<bar>A * B\<bar> div \<bar>A\<bar> = \<bar>B\<bar>" using assms by (simp add: abs_mult)
  then have "(A * B) sdiv A = sgn A * sgn A * (sgn B * \<bar>B\<bar>)"
    by (simp add: signed_divide_int_def sgn_mult)
  also have "\<dots> = B" using assms by (simp add: sgn_mult_abs sgn_if)
  finally show ?thesis .
qed

text \<open>
  The round trip on integers: \<open>S\<close> is the wrapped product of \<open>A\<close> and \<open>B\<close>. When both
  quotients of \<open>S\<close> agree (modulo the word size) with the other operand, nothing wrapped.
\<close>

lemma mul_roundtrip_int:
  fixes A B S :: int
  assumes rng: "- (2 ^ 31) \<le> A" "A < 2 ^ 31" "- (2 ^ 31) \<le> B" "B < 2 ^ 31"
               "- (2 ^ 31) \<le> S" "S < 2 ^ 31"
    and cong: "2 ^ 32 dvd (S - A * B)"
    and A0: "A \<noteq> 0"
    and t1: "2 ^ 32 dvd (S sdiv A - B)"
    and t2: "B \<noteq> 0 \<Longrightarrow> 2 ^ 32 dvd (S sdiv B - A)"
  shows "S = A * B"
proof -
  define Q where "Q = S sdiv A"
  have Qr: "- \<bar>S\<bar> \<le> Q" "Q \<le> \<bar>S\<bar>"
    using sdiv_int_range [of S A] by (simp_all add: Q_def)
  have Sabs: "\<bar>S\<bar> \<le> 2 ^ 31" using rng by simp
  have "Q - B = 0 \<or> Q - B = 2 ^ 32"
  proof -
    obtain k where k: "Q - B = 2 ^ 32 * k" using t1 by (auto simp: Q_def dvd_def)
    have "- (2 ^ 32) < Q - B" "Q - B \<le> 2 ^ 32" using Qr Sabs rng by simp_all
    with k have "-1 < k" "k \<le> 1" by simp_all
    then have "k = 0 \<or> k = 1" by arith
    with k show ?thesis by auto
  qed
  then show ?thesis
  proof
    assume "Q - B = 0"
    then have QB: "S sdiv A = B" by (simp add: Q_def)
    have "S sdiv A * A + S smod A = S" by (rule sdiv_mult_smod_eq)
    then have r: "S smod A = S - A * B" using QB by (simp add: mult.commute)
    have "\<bar>S smod A\<bar> < 2 ^ 32"
      using smod_int_range [OF A0, of S] rng by auto
    with cong r have "S smod A = 0" using dvd_small_zero by metis
    with r show ?thesis by simp
  next
    assume d: "Q - B = 2 ^ 32"
    then have Q: "Q = 2 ^ 31" and B: "B = - (2 ^ 31)" using Qr Sabs rng by simp_all
    from Q Qr Sabs rng have S: "S = - (2 ^ 31)" by simp
    have "A = -1"
    proof (rule ccontr)
      assume n: "A \<noteq> -1"
      have "0 \<le> \<bar>S\<bar> div \<bar>A\<bar>"
        by (simp add: div_int_pos_iff)
      then have "\<bar>Q\<bar> = \<bar>S\<bar> div \<bar>A\<bar>"
        using A0 S by (simp add: Q_def signed_divide_int_def abs_mult)
      moreover have "\<bar>S\<bar> div \<bar>A\<bar> < 2 ^ 31"
      proof (cases "\<bar>A\<bar> = 1")
        case True
        with n have "A = 1" by arith
        then have "Q = S" by (simp add: Q_def)
        with Q S show ?thesis by simp
      next
        case False
        with A0 have "2 \<le> \<bar>A\<bar>" by arith
        then have "\<bar>S\<bar> div \<bar>A\<bar> \<le> \<bar>S\<bar> div 2"
          by (intro zdiv_mono2) simp_all
        with S show ?thesis by simp
      qed
      ultimately show False using Q by simp
    qed
    with t2 B S have "(2 ^ 32 :: int) dvd 2" by (simp add: signed_divide_int_def)
    then show ?thesis by simp
  qed
qed

subsection \<open>Words and their signed values\<close>

lemma word32_of_int_eq_iff:
  "(word_of_int x :: cint) = word_of_int y \<longleftrightarrow> 2 ^ 32 dvd (x - y)"
  by (simp add: word_of_int_eq_iff take_bit_eq_mod mod_eq_dvd_iff)

lemma sint32_range: "- (2 ^ 31) \<le> sint (x :: cint)" "sint (x :: cint) < 2 ^ 31"
  using sint_ge [of x] sint_lt [of x] by simp_all

lemma sint32_mult_cong: "2 ^ 32 dvd (sint (a * b :: cint) - sint a * sint b)"
proof -
  have "(word_of_int (sint (a * b)) :: cint) = word_of_int (sint a * sint b)"
    by simp
  then show ?thesis by (simp only: word32_of_int_eq_iff)
qed

lemma sint32_add_cong: "2 ^ 32 dvd (sint (a + b :: cint) - (sint a + sint b))"
proof -
  have "(word_of_int (sint (a + b)) :: cint) = word_of_int (sint a + sint b)"
    by simp
  then show ?thesis by (simp only: word32_of_int_eq_iff)
qed


lemma sint32_eq_0_iff: "sint (a :: cint) = 0 \<longleftrightarrow> a = 0"
  by (fact signed_eq_0_iff)

lemma sint32_mult_exact:
  assumes rep: "representable (sint a * sint b)"
  shows "sint (a * b :: cint) = sint a * sint b"
proof -
  have "\<bar>sint (a * b) - sint a * sint b\<bar> < 2 ^ 32"
    using rep sint32_range [of "a * b"] by (simp add: representable_def abs_less_iff)
  with sint32_mult_cong [of a b] have "sint (a * b) - sint a * sint b = 0"
    by (rule dvd_small_zero)
  then show ?thesis by simp
qed

subsection \<open>The multiplication check\<close>

lemma wq_eq_iff:
  "(word_of_int (sint s sdiv sint a) :: cint) = b \<longleftrightarrow> 2 ^ 32 dvd (sint s sdiv sint a - sint b)"
proof -
  have "(word_of_int (sint s sdiv sint a) :: cint) = b
      \<longleftrightarrow> (word_of_int (sint s sdiv sint a) :: cint) = word_of_int (sint b)"
    by simp
  then show ?thesis by (simp only: word32_of_int_eq_iff)
qed

lemma mult_check_pass_iff:
  "((a = 0 \<or> (word_of_int (sint (a * b) sdiv sint a) :: cint) = b)
      \<and> (b = 0 \<or> (word_of_int (sint (a * b) sdiv sint b) :: cint) = a))
     \<longleftrightarrow> representable (sint a * sint b)"
proof
  assume pass: "(a = 0 \<or> (word_of_int (sint (a * b) sdiv sint a) :: cint) = b)
      \<and> (b = 0 \<or> (word_of_int (sint (a * b) sdiv sint b) :: cint) = a)"
  show "representable (sint a * sint b)"
  proof (cases "a = 0")
    case True
    then show ?thesis by (simp add: representable_def)
  next
    case False
    then have A0: "sint a \<noteq> 0" by (simp add: sint32_eq_0_iff)
    from pass False have t1: "2 ^ 32 dvd (sint (a * b) sdiv sint a - sint b)"
      by (simp add: wq_eq_iff)
    have t2: "sint b \<noteq> 0 \<Longrightarrow> 2 ^ 32 dvd (sint (a * b) sdiv sint b - sint a)"
      using pass by (simp add: wq_eq_iff sint32_eq_0_iff)
    have "sint (a * b) = sint a * sint b"
      by (rule mul_roundtrip_int [OF sint32_range sint32_range sint32_range
            sint32_mult_cong A0 t1 t2])
    then show ?thesis using sint32_range [of "a * b"] by (simp add: representable_def)
  qed
next
  assume rep: "representable (sint a * sint b)"
  then have eq: "sint (a * b) = sint a * sint b" by (rule sint32_mult_exact)
  have "(word_of_int (sint (a * b) sdiv sint a) :: cint) = b" if "a \<noteq> 0"
  proof -
    from that have "sint a \<noteq> 0" by (simp add: sint32_eq_0_iff)
    then show ?thesis by (simp add: eq sdiv_exact)
  qed
  moreover have "(word_of_int (sint (a * b) sdiv sint b) :: cint) = a" if "b \<noteq> 0"
  proof -
    from that have "sint b \<noteq> 0" by (simp add: sint32_eq_0_iff)
    then show ?thesis using sdiv_exact [of "sint b" "sint a"]
      by (simp add: eq mult.commute)
  qed
  ultimately show "(a = 0 \<or> (word_of_int (sint (a * b) sdiv sint a) :: cint) = b)
      \<and> (b = 0 \<or> (word_of_int (sint (a * b) sdiv sint b) :: cint) = a)"
    by blast
qed

text \<open>
  The first quotient is undefined for exactly one pair of operands; the second quotient is
  never reached when it would be undefined, because the first test has fired by then.
\<close>

lemma first_quotient_defined:
  assumes "a \<noteq> 0" "\<not> (a = - 1 \<and> b = - 2147483648)"
  shows "c_div (a * b) a = Inr (word_of_int (sint (a * b) sdiv sint a))"
proof -
  have "\<not> (a * b = - 2147483648 \<and> a = - 1)"
  proof
    assume h: "a * b = - 2147483648 \<and> a = - 1"
    then have "- 1 * b = (- 2147483648 :: cint)" by auto
    then have "- b = - (2147483648 :: cint)" by simp
    then have "b = 2147483648" by (simp only: neg_equal_iff_equal)
    moreover have "(2147483648 :: cint) = - 2147483648" by simp
    ultimately have "b = - 2147483648" by (rule trans)
    with h assms(2) show False by simp
  qed
  with assms(1) show ?thesis by (simp add: c_div_def)
qed

lemma second_quotient_defined:
  assumes "b \<noteq> 0" "a \<noteq> 0 \<Longrightarrow> (word_of_int (sint (a * b) sdiv sint a) :: cint) = b"
  shows "c_div (a * b) b = Inr (word_of_int (sint (a * b) sdiv sint b))"
proof -
  have "\<not> (a * b = - 2147483648 \<and> b = - 1)"
  proof
    assume h: "a * b = - 2147483648 \<and> b = - 1"
    then have "a * - 1 = (- 2147483648 :: cint)" by auto
    then have "- a = - (2147483648 :: cint)" by simp
    then have "a = 2147483648" by (simp only: neg_equal_iff_equal)
    moreover have "(2147483648 :: cint) = - 2147483648" by simp
    ultimately have a: "a = - 2147483648" by (rule trans)
    then have "a \<noteq> 0" by simp
    from assms(2) [OF this] h a show False by simp
  qed
  with assms(1) show ?thesis by (simp add: c_div_def)
qed

text \<open>
  Apart from that one pair, \<open>check_overflow\<close> in multiplication mode stops with
  \<open>ArithmeticOverflow\<close> exactly when the product of the two signed operands is not
  representable, and when it passes the wrapped product is the exact product.
\<close>

lemma check_overflow_mult:
  assumes "\<not> (a = - 1 \<and> b = - 2147483648)"
  shows "check_overflow a b False True =
     (if representable (sint a * sint b) then Inr ()
      else Inl (ArithmeticOverflow Multiplication a b))"
proof (cases "a = 0")
  case True
  then show ?thesis by (simp add: check_overflow_def c_div_def representable_def)
next
  case a: False
  note q1 = first_quotient_defined [OF a assms]
  show ?thesis
  proof (cases "(word_of_int (sint (a * b) sdiv sint a) :: cint) = b")
    case False
    with mult_check_pass_iff [of a b] a have "\<not> representable (sint a * sint b)" by blast
    with a False show ?thesis by (simp add: check_overflow_def q1)
  next
    case t1: True
    show ?thesis
    proof (cases "b = 0")
      case True
      with a show ?thesis
        by (simp add: check_overflow_def c_div_def representable_def)
    next
      case b: False
      have q2: "c_div (a * b) b = Inr (word_of_int (sint (a * b) sdiv sint b))"
        by (rule second_quotient_defined [OF b]) (rule t1)
      from a b t1 mult_check_pass_iff [of a b] show ?thesis
        by (auto simp: check_overflow_def q1 q2)
    qed
  qed
qed

lemma check_overflow_mult_exact:
  "check_overflow a b False True = Inr () \<Longrightarrow> sint (a * b) = sint a * sint b"
proof -
  assume p: "check_overflow a b False True = Inr ()"
  have "\<not> (a = - 1 \<and> b = - 2147483648)"
  proof
    assume "a = - 1 \<and> b = - 2147483648"
    then have "check_overflow a b False True = Inl DivisionUndefined"
      by (simp add: check_overflow_def c_div_def)
    with p show False by simp
  qed
  from check_overflow_mult [OF this] p have "representable (sint a * sint b)"
    by (simp split: if_splits)
  then show ?thesis by (rule sint32_mult_exact)
qed

text \<open>
  C5. Checked multiplication should fail with \<open>ArithmeticOverflow\<close> whenever the product is
  not representable. For \<open>-1\<close> times the minimum the product is \<open>2 ^ 31\<close>; the wrapped
  product is the minimum again, and the round trip of line 95 divides it by \<open>-1\<close>. That
  quotient does not exist, so the program stops in the division, before the comparison and
  without the overflow message.
\<close>

theorem check_overflow_mult_min:
  "check_overflow (- 1) (- 2147483648) False True = Inl DivisionUndefined
   \<and> \<not> representable (sint (- 1 :: cint) * sint (- 2147483648 :: cint))
   \<and> (- 1 :: cint) * (- 2147483648) = - 2147483648
   \<and> c_div (- 2147483648) (- 1) = Inl DivisionUndefined"
  by (simp add: check_overflow_def c_div_def representable_def)

subsection \<open>The addition check\<close>

lemma sint32_add_cases:
  "sint (a + b :: cint) = sint a + sint b
   \<or> sint (a + b) = sint a + sint b - 2 ^ 32
   \<or> sint (a + b) = sint a + sint b + 2 ^ 32"
proof -
  obtain k where k: "sint (a + b) - (sint a + sint b) = 2 ^ 32 * k"
    using sint32_add_cong [of a b] by (auto simp: dvd_def)
  have "-2 < k" "k < 2"
    using sint32_range [of a] sint32_range [of b] sint32_range [of "a + b"] k by simp_all
  then have "k = -1 \<or> k = 0 \<or> k = 1" by arith
  with k show ?thesis by auto
qed

lemma sint32_min_iff: "sint (a :: cint) = - (2 ^ 31) \<longleftrightarrow> a = - 2147483648"
proof
  assume "sint a = - (2 ^ 31)"
  then have "(word_of_int (sint a) :: cint) = word_of_int (- (2 ^ 31))" by simp
  then show "a = - 2147483648" by simp
next
  assume "a = - 2147483648"
  then show "sint a = - (2 ^ 31)" by simp
qed

text \<open>
  In addition mode the check passes exactly when the sum is representable, with one
  exception: the minimum added to itself wraps to zero, which has neither sign.
\<close>

lemma add_check_pass_iff:
  "check_overflow a b True False = Inr ()
     \<longleftrightarrow> representable (sint a + sint b) \<or> (a = - 2147483648 \<and> b = - 2147483648)"
proof -
  have min: "a = - 2147483648 \<and> b = - 2147483648 \<longleftrightarrow> sint a + sint b = - (2 ^ 32)"
    using sint32_range [of a] sint32_range [of b] sint32_min_iff [of a] sint32_min_iff [of b]
    by auto
  show ?thesis
    unfolding min
    using sint32_add_cases [of a b] sint32_range [of a] sint32_range [of b]
      sint32_range [of "a + b"]
    by (auto simp: check_overflow_def word_sless_alt representable_def)
qed

lemma add_check_exact:
  "representable (sint a + sint b) \<Longrightarrow> sint (a + b :: cint) = sint a + sint b"
  using sint32_add_cases [of a b] sint32_range [of "a + b"]
  by (auto simp: representable_def)

text \<open>
  C3. Checked addition should fail whenever the sum of the operands is not representable.
  At the minimum plus the minimum the sum is \<open>- 2 ^ 32\<close>, the wrapped sum is \<open>0\<close>, the
  test \<open>s > 0\<close> of line 86 is false and \<open>check_overflow\<close> returns normally.
\<close>

theorem check_overflow_add_min_min:
  "check_overflow (- 2147483648) (- 2147483648) True False = Inr ()
   \<and> \<not> representable (sint (- 2147483648 :: cint) + sint (- 2147483648 :: cint))
   \<and> (- 2147483648 :: cint) + (- 2147483648) = 0"
  by (simp add: check_overflow_def representable_def word_sless_alt)

section \<open>Loops\<close>

lemma ebind_eq_Inr_iff: "ebind x f = Inr y \<longleftrightarrow> (\<exists>v. x = Inr v \<and> f v = Inr y)"
  by (cases x) simp_all

lemma ebind_eq_Inl_iff: "ebind x f = Inl e \<longleftrightarrow> x = Inl e \<or> (\<exists>v. x = Inr v \<and> f v = Inl e)"
  by (cases x) simp_all

lemma ebind_Inr_right [simp]: "ebind x Inr = x"
  by (cases x) simp_all

lemma ebind_assoc: "ebind (ebind x f) g = ebind x (\<lambda>v. ebind (f v) g)"
  by (cases x) simp_all

lemma obind_eq_Some_Inr_iff:
  "obind x f = Some (Inr y) \<longleftrightarrow> (\<exists>v. x = Some (Inr v) \<and> f v = Some (Inr y))"
proof (cases x)
  case None
  then show ?thesis by simp
next
  case (Some u)
  then show ?thesis by (cases u) simp_all
qed

lemma for_each_append:
  "for_each (xs @ ys) body s = ebind (for_each xs body s) (for_each ys body)"
proof (induction xs arbitrary: s)
  case Nil
  show ?case by simp
next
  case (Cons x xs)
  have "for_each (xs @ ys) body = (\<lambda>v. ebind (for_each xs body v) (for_each ys body))"
    using Cons.IH by (intro ext)
  then show ?case by (simp add: ebind_assoc)
qed

lemma for_each_map:
  "for_each (map f xs) body s = for_each xs (\<lambda>x. body (f x)) s"
proof (induction xs arbitrary: s)
  case Nil
  show ?case by simp
next
  case (Cons x xs)
  have "for_each (map f xs) body = for_each xs (\<lambda>x. body (f x))"
    using Cons.IH by (intro ext)
  then show ?case by simp
qed

lemma for_each_product:
  "for_each xs (\<lambda>r. for_each ys (body r)) s
     = for_each (List.product xs ys) (\<lambda>p. body (fst p) (snd p)) s"
proof (induction xs arbitrary: s)
  case Nil
  show ?case by simp
next
  case (Cons x xs)
  have "for_each xs (\<lambda>r. for_each ys (body r))
          = for_each (List.product xs ys) (\<lambda>p. body (fst p) (snd p))"
    using Cons.IH by (intro ext)
  then show ?case by (simp add: for_each_append for_each_map)
qed

lemma for_each_cong_inv:
  assumes "I s"
    and "\<And>p t. p \<in> set ps \<Longrightarrow> I t \<Longrightarrow> f p t = g p t"
    and "\<And>p t t'. p \<in> set ps \<Longrightarrow> I t \<Longrightarrow> g p t = Inr t' \<Longrightarrow> I t'"
  shows "for_each ps f s = for_each ps g s"
  using assms
proof (induction ps arbitrary: s)
  case Nil
  show ?case by simp
next
  case (Cons p ps)
  have fg: "f p s = g p s" using Cons.prems by simp
  show ?case
  proof (cases "g p s")
    case (Inl e)
    with fg show ?thesis by simp
  next
    case (Inr t)
    then have "I t" using Cons.prems(3) [of p s t] Cons.prems(1) by simp
    then have "for_each ps f t = for_each ps g t"
    proof (rule Cons.IH)
      show "f q u = g q u" if "q \<in> set ps" "I u" for q u
        using that Cons.prems(2) [of q u] by simp
      show "I u'" if "q \<in> set ps" "I u" "g q u = Inr u'" for q u u'
        using that Cons.prems(3) [of q u u'] by simp
    qed
    with fg Inr show ?thesis by simp
  qed
qed

subsection \<open>Stores\<close>

lemma store_eq_Inr_iff: "store s r c v = Inr t \<longleftrightarrow> in_bounds r c \<and> t = wr_at s r c v"
  by (auto simp: store_def)

lemma wr_at_sel [simp]:
  "i (wr_at s r c v) = i s" "j (wr_at s r c v) = j s"
  "m (wr_at s r c v) x y = (if x = r \<and> y = c then v else m s x y)"
  by (simp_all add: wr_at_def)

subsection \<open>Filling a list of cells\<close>

lemma fill_Nil [simp]: "fill val loc [] s = Inr s"
  by (simp add: fill_def)

lemma fill_Cons:
  "fill val loc (p # ps) s
     = ebind (val p) (\<lambda>v. ebind (store s (fst (loc p)) (snd (loc p)) v) (fill val loc ps))"
proof -
  have "for_each ps (\<lambda>p s'. ebind (val p) (store s' (fst (loc p)) (snd (loc p))))
          = fill val loc ps"
    by (intro ext) (simp add: fill_def)
  then show ?thesis by (simp add: fill_def ebind_assoc)
qed

lemma fill_offsets:
  "fill val loc ps s = Inr t \<Longrightarrow> i t = i s \<and> j t = j s"
  by (induction ps arbitrary: s)
     (auto simp: fill_Cons ebind_eq_Inr_iff store_eq_Inr_iff)

lemma fill_vals:
  "fill val loc ps s = Inr t \<Longrightarrow> p \<in> set ps
     \<Longrightarrow> (\<exists>v. val p = Inr v) \<and> in_bounds (fst (loc p)) (snd (loc p))"
  by (induction ps arbitrary: s)
     (auto simp: fill_Cons ebind_eq_Inr_iff store_eq_Inr_iff)

lemma fill_outside:
  "fill val loc ps s = Inr t \<Longrightarrow> (x, y) \<notin> loc ` set ps \<Longrightarrow> m t x y = m s x y"
proof (induction ps arbitrary: s)
  case Nil
  then show ?case by simp
next
  case (Cons p ps)
  from Cons.prems(1) obtain v where v: "val p = Inr v"
    and b: "in_bounds (fst (loc p)) (snd (loc p))"
    and rest: "fill val loc ps (wr_at s (fst (loc p)) (snd (loc p)) v) = Inr t"
    by (auto simp: fill_Cons ebind_eq_Inr_iff store_eq_Inr_iff)
  from Cons.prems(2) have "(x, y) \<notin> loc ` set ps" and "loc p \<noteq> (x, y)" by auto
  with Cons.IH [OF rest] show ?case by (cases "loc p") auto
qed

lemma fill_inside:
  "fill val loc ps s = Inr t \<Longrightarrow> inj_on loc (set ps) \<Longrightarrow> distinct ps \<Longrightarrow> p \<in> set ps
     \<Longrightarrow> val p = Inr v \<Longrightarrow> m t (fst (loc p)) (snd (loc p)) = v"
proof (induction ps arbitrary: s)
  case Nil
  then show ?case by simp
next
  case (Cons q ps)
  from Cons.prems(1) obtain w where w: "val q = Inr w"
    and b: "in_bounds (fst (loc q)) (snd (loc q))"
    and rest: "fill val loc ps (wr_at s (fst (loc q)) (snd (loc q)) w) = Inr t"
    by (auto simp: fill_Cons ebind_eq_Inr_iff store_eq_Inr_iff)
  show ?case
  proof (cases "p = q")
    case True
    have "loc q \<notin> loc ` set ps"
      using Cons.prems(2,3) by (auto simp: inj_on_def)
    then have "(fst (loc q), snd (loc q)) \<notin> loc ` set ps" by simp
    from fill_outside [OF rest this] True w Cons.prems(5) show ?thesis by simp
  next
    case False
    with Cons.prems have "p \<in> set ps" "inj_on loc (set ps)" "distinct ps" by auto
    from Cons.IH [OF rest this(2,3,1) Cons.prems(5)] show ?thesis .
  qed
qed

lemma fill_succeeds:
  "(\<And>p. p \<in> set ps \<Longrightarrow> (\<exists>v. val p = Inr v) \<and> in_bounds (fst (loc p)) (snd (loc p)))
     \<Longrightarrow> \<exists>t. fill val loc ps s = Inr t"
proof (induction ps arbitrary: s)
  case Nil
  show ?case by simp
next
  case (Cons q ps)
  from Cons.prems [of q] obtain w where w: "val q = Inr w"
    and b: "in_bounds (fst (loc q)) (snd (loc q))" by auto
  have "\<exists>t. fill val loc ps (wr_at s (fst (loc q)) (snd (loc q)) w) = Inr t"
    using Cons.prems by (intro Cons.IH) simp
  with w b show ?case by (simp add: fill_Cons store_def)
qed

lemma fill_first_failure:
  "ps = pre @ p # post
     \<Longrightarrow> (\<And>q. q \<in> set pre \<Longrightarrow> (\<exists>v. val q = Inr v) \<and> in_bounds (fst (loc q)) (snd (loc q)))
     \<Longrightarrow> val p = Inl e \<Longrightarrow> fill val loc ps s = Inl e"
proof (induction pre arbitrary: ps s)
  case Nil
  then show ?case by (simp add: fill_Cons)
next
  case (Cons q pre)
  from Cons.prems(2) [of q] obtain w where w: "val q = Inr w"
    and b: "in_bounds (fst (loc q)) (snd (loc q))" by auto
  have "fill val loc (pre @ p # post) (wr_at s (fst (loc q)) (snd (loc q)) w) = Inl e"
    using Cons.prems by (intro Cons.IH) simp_all
  with w b Cons.prems(1) show ?case by (simp add: fill_Cons store_def)
qed

section \<open>Views\<close>

lemma load_eq_Inr_iff: "load x r c = Inr v \<longleftrightarrow> in_bounds r c \<and> m x r c = v"
  by (auto simp: load_def)

lemma elem_eq_Inr_iff:
  "elem x r c = Inr v \<longleftrightarrow> in_bounds (i x + r) (j x + c) \<and> m x (i x + r) (j x + c) = v"
  by (simp add: elem_def load_eq_Inr_iff)

lemma elem_cases: "elem x r c = Inr (m x (i x + r) (j x + c)) \<or> elem x r c = Inl OutOfBounds"
  by (simp add: elem_def load_def)

lemma put_view_eq: "put_view t r c = store t (i t + r) (j t + c)"
  by (rule ext) (simp add: put_view_def)

lemma view_loop_fill:
  "for_each [0..n - 1] (\<lambda>r. for_each [0..n - 1] (\<lambda>c t. ebind (val r c) (put_view t r c))) s
     = view_fill val n s"
  unfolding view_fill_def cells_def for_each_product fill_def
  apply (rule for_each_cong_inv [where I = "\<lambda>t. i t = i s \<and> j t = j s"])
    apply simp
   apply (simp add: put_view_eq)
  apply (auto simp: ebind_eq_Inr_iff store_eq_Inr_iff)
  done

lemma copy_loop_fill:
  "copy_elems_to_quad s m2 h = view_fill (\<lambda>r c. load m2 (i s + r) (j s + c)) h s"
  unfolding copy_elems_to_quad_def view_fill_def cells_def for_each_product fill_def
  apply (rule for_each_cong_inv [where I = "\<lambda>t. i t = i s \<and> j t = j s"])
    apply simp
   apply (simp add: put_view_eq)
  apply (auto simp: ebind_eq_Inr_iff store_eq_Inr_iff)
  done

lemma abs_loop_fill:
  "for_each rs (\<lambda>r. for_each cs (\<lambda>c t. ebind (val r c) (store t r c))) s
     = fill (\<lambda>p. val (fst p) (snd p)) (\<lambda>p. p) (List.product rs cs) s"
  by (simp add: for_each_product fill_def)

lemma set_cells:
  "p \<in> set (List.product [a..b - 1] [c..d - 1])
     \<longleftrightarrow> a \<le> fst p \<and> fst p < b \<and> c \<le> snd p \<and> snd p < d"
  by (cases p) auto

lemma set_cells0: "p \<in> set (cells n) \<longleftrightarrow> 0 \<le> fst p \<and> fst p < n \<and> 0 \<le> snd p \<and> snd p < n"
  unfolding cells_def by (rule set_cells)

lemma distinct_product_upto [simp]: "distinct (List.product [a..b] [c..d :: int])"
  by (simp add: distinct_product)

lemma distinct_cells [simp]: "distinct (cells n)"
  by (simp add: cells_def)

lemma inj_on_shift [simp]: "inj_on (\<lambda>p. ((i0 :: int) + fst p, (j0 :: int) + snd p)) A"
  by (auto simp: inj_on_def prod_eq_iff)

lemma add_view_fill: "add m0 a b n = view_fill (add_cell a b) n (m0\<lparr>i := i a, j := j a\<rparr>)"
  by (simp add: add_def view_loop_fill)

lemma sub_view_fill: "sub m0 a b n = view_fill (sub_cell a b) n (m0\<lparr>i := i a, j := j a\<rparr>)"
  by (simp add: sub_def view_loop_fill)

lemma quad_view_fill:
  "quad q0 a di dj h
     = view_fill (\<lambda>r c. elem a (di + r) (dj + c)) h (q0\<lparr>i := i a + di, j := j a + dj\<rparr>)"
  by (simp add: quad_def copy_loop_fill elem_def add.assoc)

text \<open>
  What a completed \<open>view_fill\<close> leaves: the offsets as they were, the computed value in
  every cell of the view, and every other cell as it was.
\<close>

lemma view_fill_Inr:
  assumes "view_fill val n s = Inr res"
  shows "i res = i s" "j res = j s"
    and "0 \<le> r \<Longrightarrow> r < n \<Longrightarrow> 0 \<le> c \<Longrightarrow> c < n
           \<Longrightarrow> \<exists>v. val r c = Inr v \<and> elem res r c = Inr v"
    and "\<not> (i s \<le> x \<and> x < i s + n \<and> j s \<le> y \<and> y < j s + n) \<Longrightarrow> m res x y = m s x y"
proof -
  let ?loc = "\<lambda>p. (i s + fst p, j s + snd p)"
  let ?val = "\<lambda>p. val (fst p) (snd p)"
  have f: "fill ?val ?loc (cells n) s = Inr res"
    using assms by (simp add: view_fill_def)
  from fill_offsets [OF f] show o: "i res = i s" "j res = j s" by simp_all
  show "\<exists>v. val r c = Inr v \<and> elem res r c = Inr v"
    if "0 \<le> r" "r < n" "0 \<le> c" "c < n"
  proof -
    have mem: "(r, c) \<in> set (cells n)" using that by (simp add: set_cells0)
    from fill_vals [OF f mem] obtain v where v: "val r c = Inr v"
      and b: "in_bounds (i s + r) (j s + c)" by auto
    have "m res (fst (?loc (r, c))) (snd (?loc (r, c))) = v"
      by (rule fill_inside [OF f _ _ mem]) (simp_all add: v)
    with v b o show ?thesis by (simp add: elem_eq_Inr_iff)
  qed
  show "m res x y = m s x y" if out: "\<not> (i s \<le> x \<and> x < i s + n \<and> j s \<le> y \<and> y < j s + n)"
  proof (rule fill_outside [OF f])
    show "(x, y) \<notin> ?loc ` set (cells n)"
    proof
      assume "(x, y) \<in> ?loc ` set (cells n)"
      then obtain p where "p \<in> set (cells n)" "x = i s + fst p" "y = j s + snd p" by auto
      with out show False by (simp add: set_cells0)
    qed
  qed
qed

lemma view_fill_succeeds:
  assumes "\<And>r c. 0 \<le> r \<Longrightarrow> r < n \<Longrightarrow> 0 \<le> c \<Longrightarrow> c < n
             \<Longrightarrow> (\<exists>v. val r c = Inr v) \<and> in_bounds (i s + r) (j s + c)"
  shows "\<exists>res. view_fill val n s = Inr res"
  unfolding view_fill_def
  by (rule fill_succeeds) (use assms in \<open>simp add: set_cells0\<close>)

lemma view_fill_first_failure:
  assumes "cells n = pre @ (r, c) # post"
    and "\<And>q. q \<in> set pre \<Longrightarrow> (\<exists>v. val (fst q) (snd q) = Inr v) \<and> in_bounds (i s + fst q) (j s + snd q)"
    and "val r c = Inl e"
  shows "view_fill val n s = Inl e"
  unfolding view_fill_def
  by (rule fill_first_failure [OF assms(1)]) (use assms in simp_all)

lemma view_fill_nonpos: "n \<le> 0 \<Longrightarrow> view_fill val n s = Inr s"
  by (simp add: view_fill_def cells_def)

lemma view_isD:
  "view_is x h F \<Longrightarrow> 0 \<le> r \<Longrightarrow> r < h \<Longrightarrow> 0 \<le> c \<Longrightarrow> c < h \<Longrightarrow> elem x r c = Inr (F r c)"
  by (simp add: view_is_def)

lemma view_is_in_bounds:
  "view_is x h F \<Longrightarrow> 0 \<le> r \<Longrightarrow> r < h \<Longrightarrow> 0 \<le> c \<Longrightarrow> c < h \<Longrightarrow> in_bounds (i x + r) (j x + c)"
  by (auto simp: view_is_def elem_eq_Inr_iff)

section \<open>Elementwise addition and subtraction\<close>

lemma add_cell_eq_Inr_iff:
  "add_cell a b r c = Inr v \<longleftrightarrow>
     (\<exists>x y. elem a r c = Inr x \<and> elem b r c = Inr y
        \<and> check_overflow x y True False = Inr () \<and> v = x + y)"
  by (auto simp: add_cell_def ebind_eq_Inr_iff)

lemma sub_cell_eq_Inr_iff:
  "sub_cell a b r c = Inr v \<longleftrightarrow>
     (\<exists>x y. elem a r c = Inr x \<and> elem b r c = Inr y
        \<and> check_overflow x (- y) True False = Inr () \<and> v = x - y)"
  by (auto simp: sub_cell_def ebind_eq_Inr_iff)

lemma check_overflow_add_cases:
  "check_overflow x y True False = Inr ()
     \<or> check_overflow x y True False = Inl (ArithmeticOverflow Addition x y)"
  by (simp add: check_overflow_def)

lemma add_cell_Inr_bounds: "add_cell a b r c = Inr v \<Longrightarrow> in_bounds (i a + r) (j a + c)"
  by (auto simp: add_cell_eq_Inr_iff elem_eq_Inr_iff)

lemma sub_cell_Inr_bounds: "sub_cell a b r c = Inr v \<Longrightarrow> in_bounds (i a + r) (j a + c)"
  by (auto simp: sub_cell_eq_Inr_iff elem_eq_Inr_iff)

text \<open>
  A result of \<open>add\<close>: the offsets of the first operand, the sum in every cell of the
  view, and what the local held before in every other cell.
\<close>

lemma add_Inr:
  assumes "add m0 a b n = Inr res"
  shows "i res = i a" "j res = j a"
    and "0 \<le> r \<Longrightarrow> r < n \<Longrightarrow> 0 \<le> c \<Longrightarrow> c < n
           \<Longrightarrow> \<exists>v. add_cell a b r c = Inr v \<and> elem res r c = Inr v"
    and "\<not> (i a \<le> x \<and> x < i a + n \<and> j a \<le> y \<and> y < j a + n) \<Longrightarrow> m res x y = m m0 x y"
proof -
  from assms have f: "view_fill (add_cell a b) n (m0\<lparr>i := i a, j := j a\<rparr>) = Inr res"
    by (simp add: add_view_fill)
  from view_fill_Inr(1,2) [OF f] show "i res = i a" "j res = j a" by simp_all
  show "\<exists>v. add_cell a b r c = Inr v \<and> elem res r c = Inr v"
    if "0 \<le> r" "r < n" "0 \<le> c" "c < n"
    using view_fill_Inr(3) [OF f that] .
  show "m res x y = m m0 x y" if "\<not> (i a \<le> x \<and> x < i a + n \<and> j a \<le> y \<and> y < j a + n)"
    using view_fill_Inr(4) [OF f, of x y] that by simp
qed

lemma sub_Inr:
  assumes "sub m0 a b n = Inr res"
  shows "i res = i a" "j res = j a"
    and "0 \<le> r \<Longrightarrow> r < n \<Longrightarrow> 0 \<le> c \<Longrightarrow> c < n
           \<Longrightarrow> \<exists>v. sub_cell a b r c = Inr v \<and> elem res r c = Inr v"
    and "\<not> (i a \<le> x \<and> x < i a + n \<and> j a \<le> y \<and> y < j a + n) \<Longrightarrow> m res x y = m m0 x y"
proof -
  from assms have f: "view_fill (sub_cell a b) n (m0\<lparr>i := i a, j := j a\<rparr>) = Inr res"
    by (simp add: sub_view_fill)
  from view_fill_Inr(1,2) [OF f] show "i res = i a" "j res = j a" by simp_all
  show "\<exists>v. sub_cell a b r c = Inr v \<and> elem res r c = Inr v"
    if "0 \<le> r" "r < n" "0 \<le> c" "c < n"
    using view_fill_Inr(3) [OF f that] .
  show "m res x y = m m0 x y" if "\<not> (i a \<le> x \<and> x < i a + n \<and> j a \<le> y \<and> y < j a + n)"
    using view_fill_Inr(4) [OF f, of x y] that by simp
qed

text \<open>When every cell passes, a matrix is returned.\<close>

lemma add_succeeds:
  assumes "\<And>r c. 0 \<le> r \<Longrightarrow> r < n \<Longrightarrow> 0 \<le> c \<Longrightarrow> c < n \<Longrightarrow> \<exists>v. add_cell a b r c = Inr v"
  shows "\<exists>res. add m0 a b n = Inr res"
  unfolding add_view_fill
proof (rule view_fill_succeeds)
  fix r c assume rc: "0 \<le> r" "r < n" "0 \<le> c" "c < n"
  from assms [OF rc] obtain v where v: "add_cell a b r c = Inr v" ..
  from v add_cell_Inr_bounds [OF v]
  show "(\<exists>v. add_cell a b r c = Inr v)
      \<and> in_bounds (i (m0\<lparr>i := i a, j := j a\<rparr>) + r) (j (m0\<lparr>i := i a, j := j a\<rparr>) + c)"
    by auto
qed

lemma sub_succeeds:
  assumes "\<And>r c. 0 \<le> r \<Longrightarrow> r < n \<Longrightarrow> 0 \<le> c \<Longrightarrow> c < n \<Longrightarrow> \<exists>v. sub_cell a b r c = Inr v"
  shows "\<exists>res. sub m0 a b n = Inr res"
  unfolding sub_view_fill
proof (rule view_fill_succeeds)
  fix r c assume rc: "0 \<le> r" "r < n" "0 \<le> c" "c < n"
  from assms [OF rc] obtain v where v: "sub_cell a b r c = Inr v" ..
  from v sub_cell_Inr_bounds [OF v]
  show "(\<exists>v. sub_cell a b r c = Inr v)
      \<and> in_bounds (i (m0\<lparr>i := i a, j := j a\<rparr>) + r) (j (m0\<lparr>i := i a, j := j a\<rparr>) + c)"
    by auto
qed

text \<open>
  When the cells before \<open>(r, c)\<close> in row-major order pass and the cell \<open>(r, c)\<close> does not,
  the call stops with the error of that cell, whatever the later cells hold.
\<close>

lemma add_first_failure:
  assumes cells: "cells n = pre @ (r, c) # post"
    and pre: "\<And>q. q \<in> set pre \<Longrightarrow> \<exists>v. add_cell a b (fst q) (snd q) = Inr v"
    and fail: "add_cell a b r c = Inl e"
  shows "add m0 a b n = Inl e"
  unfolding add_view_fill
proof (rule view_fill_first_failure [where val = "add_cell a b", OF cells _ fail])
  fix q assume "q \<in> set pre"
  from pre [OF this] obtain v where v: "add_cell a b (fst q) (snd q) = Inr v" ..
  from v add_cell_Inr_bounds [OF v]
  show "(\<exists>v. add_cell a b (fst q) (snd q) = Inr v)
      \<and> in_bounds (i (m0\<lparr>i := i a, j := j a\<rparr>) + fst q) (j (m0\<lparr>i := i a, j := j a\<rparr>) + snd q)"
    by auto
qed

lemma sub_first_failure:
  assumes cells: "cells n = pre @ (r, c) # post"
    and pre: "\<And>q. q \<in> set pre \<Longrightarrow> \<exists>v. sub_cell a b (fst q) (snd q) = Inr v"
    and fail: "sub_cell a b r c = Inl e"
  shows "sub m0 a b n = Inl e"
  unfolding sub_view_fill
proof (rule view_fill_first_failure [where val = "sub_cell a b", OF cells _ fail])
  fix q assume "q \<in> set pre"
  from pre [OF this] obtain v where v: "sub_cell a b (fst q) (snd q) = Inr v" ..
  from v sub_cell_Inr_bounds [OF v]
  show "(\<exists>v. sub_cell a b (fst q) (snd q) = Inr v)
      \<and> in_bounds (i (m0\<lparr>i := i a, j := j a\<rparr>) + fst q) (j (m0\<lparr>i := i a, j := j a\<rparr>) + snd q)"
    by auto
qed

subsection \<open>On views with known cells\<close>

lemma add_view_is:
  assumes s: "add m0 a b h = Inr res" and v: "view_is a h F" "view_is b h G"
  shows "view_is res h (\<lambda>r c. F r c + G r c)"
  unfolding view_is_def
proof (intro allI impI)
  fix r c assume rc: "0 \<le> r \<and> r < h \<and> 0 \<le> c \<and> c < h"
  then have "elem a r c = Inr (F r c)" "elem b r c = Inr (G r c)"
    using v by (simp_all add: view_is_def)
  with add_Inr(3) [OF s, of r c] rc show "elem res r c = Inr (F r c + G r c)"
    by (auto simp: add_cell_eq_Inr_iff)
qed

lemma sub_view_is:
  assumes s: "sub m0 a b h = Inr res" and v: "view_is a h F" "view_is b h G"
  shows "view_is res h (\<lambda>r c. F r c - G r c)"
  unfolding view_is_def
proof (intro allI impI)
  fix r c assume rc: "0 \<le> r \<and> r < h \<and> 0 \<le> c \<and> c < h"
  then have "elem a r c = Inr (F r c)" "elem b r c = Inr (G r c)"
    using v by (simp_all add: view_is_def)
  with sub_Inr(3) [OF s, of r c] rc show "elem res r c = Inr (F r c - G r c)"
    by (auto simp: sub_cell_eq_Inr_iff)
qed

lemma add_view_run:
  assumes v: "view_is a h F" "view_is b h G"
    and ok: "\<And>r c. 0 \<le> r \<Longrightarrow> r < h \<Longrightarrow> 0 \<le> c \<Longrightarrow> c < h
               \<Longrightarrow> check_overflow (F r c) (G r c) True False = Inr ()"
  shows "\<exists>res. add m0 a b h = Inr res \<and> view_is res h (\<lambda>r c. F r c + G r c)
           \<and> i res = i a \<and> j res = j a"
proof -
  have "\<exists>res. add m0 a b h = Inr res"
  proof (rule add_succeeds)
    fix r c assume rc: "0 \<le> r" "r < h" "0 \<le> c" "c < h"
    from view_isD [OF v(1) rc] view_isD [OF v(2) rc] ok [OF rc]
    show "\<exists>v. add_cell a b r c = Inr v" by (simp add: add_cell_def)
  qed
  then obtain res where res: "add m0 a b h = Inr res" ..
  from res add_view_is [OF res v] add_Inr(1,2) [OF res] show ?thesis by blast
qed

lemma sub_view_run:
  assumes v: "view_is a h F" "view_is b h G"
    and ok: "\<And>r c. 0 \<le> r \<Longrightarrow> r < h \<Longrightarrow> 0 \<le> c \<Longrightarrow> c < h
               \<Longrightarrow> check_overflow (F r c) (- G r c) True False = Inr ()"
  shows "\<exists>res. sub m0 a b h = Inr res \<and> view_is res h (\<lambda>r c. F r c - G r c)
           \<and> i res = i a \<and> j res = j a"
proof -
  have "\<exists>res. sub m0 a b h = Inr res"
  proof (rule sub_succeeds)
    fix r c assume rc: "0 \<le> r" "r < h" "0 \<le> c" "c < h"
    from view_isD [OF v(1) rc] view_isD [OF v(2) rc] ok [OF rc]
    show "\<exists>v. sub_cell a b r c = Inr v" by (simp add: sub_cell_def)
  qed
  then obtain res where res: "sub m0 a b h = Inr res" ..
  from res sub_view_is [OF res v] sub_Inr(1,2) [OF res] show ?thesis by blast
qed

subsection \<open>The checks of the cells are those of \<open>check_overflow\<close>\<close>

lemma cells_1: "cells 1 = [(0, 0)]"
  by (simp add: cells_def)

lemma upto_0_1: "[0..1 :: int] = [0, 1]"
  by code_simp

lemma cells_2: "cells 2 = [(0, 0), (0, 1), (1, 0), (1, 1)]"
  by (simp add: cells_def upto_0_1)

lemma input_matrix_sel [simp]:
  "i (input_matrix rows) = 0" "j (input_matrix rows) = 0"
  "m (input_matrix rows) = input_cell rows"
  by (simp_all add: input_matrix_def)

lemma in_bounds_small [simp]:
  "in_bounds 0 0" "in_bounds 0 1" "in_bounds 1 0" "in_bounds 1 1"
  by (simp_all add: in_bounds_def NUM_ELEMS_def)

lemma input_cell_simps [simp]:
  "input_cell ((x # xs) # rows) 0 0 = x"
  by (simp add: input_cell_def)

text \<open>
  C7. \<open>add\<close> and \<open>sub\<close> should give, in every cell, the checked sum (difference), or fail
  at the first cell whose sum (difference) is not representable. They rely on
  \<open>check_overflow\<close> and on an unchecked negation instead, whatever the local \<open>m\<close> held:
  \<^item> the minimum plus the minimum is not representable, and \<open>add\<close> returns a matrix
    with the wrapped sum \<open>0\<close> in that cell;
  \<^item> with that pair in the cell \<open>(0, 0)\<close> and an overflow that \<open>check_overflow\<close> does
    detect in the cell \<open>(0, 1)\<close>, the failure reported is that of the later cell;
  \<^item> \<open>-1\<close> minus the minimum is representable, and \<open>sub\<close> fails on it.
\<close>

theorem add_sub_unchecked_cells:
  "ebind (add m0 (input_matrix [[- 2147483648]]) (input_matrix [[- 2147483648]]) 1)
      (\<lambda>res. elem res 0 0) = Inr 0
   \<and> \<not> representable (sint (- 2147483648 :: cint) + sint (- 2147483648 :: cint))
   \<and> add m0 (input_matrix [[- 2147483648, 2147483647]]) (input_matrix [[- 2147483648, 1]]) 2
       = Inl (ArithmeticOverflow Addition 2147483647 1)
   \<and> sub m0 (input_matrix [[- 1]]) (input_matrix [[- 2147483648]]) 1
       = Inl (ArithmeticOverflow Addition (- 1) (- 2147483648))
   \<and> representable (sint (- 1 :: cint) - sint (- 2147483648 :: cint))"
proof -
  have c00: "add_cell (input_matrix [[- 2147483648]]) (input_matrix [[- 2147483648]]) 0 0 = Inr 0"
    by code_simp
  have 1: "ebind (add m0 (input_matrix [[- 2147483648]]) (input_matrix [[- 2147483648]]) 1)
      (\<lambda>res. elem res 0 0) = Inr 0"
    by (simp add: add_view_fill view_fill_def cells_1 fill_Cons c00 store_def elem_def load_def)
  have p: "add_cell (input_matrix [[- 2147483648, 2147483647]])
             (input_matrix [[- 2147483648, 1]]) 0 0 = Inr 0"
    and f: "add_cell (input_matrix [[- 2147483648, 2147483647]])
             (input_matrix [[- 2147483648, 1]]) 0 1 = Inl (ArithmeticOverflow Addition 2147483647 1)"
    by code_simp+
  have 2: "add m0 (input_matrix [[- 2147483648, 2147483647]]) (input_matrix [[- 2147483648, 1]]) 2
       = Inl (ArithmeticOverflow Addition 2147483647 1)"
    by (rule add_first_failure [where pre = "[(0, 0)]" and post = "[(1, 0), (1, 1)]", OF _ _ f])
       (simp_all add: cells_2 p)
  have g: "sub_cell (input_matrix [[- 1]]) (input_matrix [[- 2147483648]]) 0 0
       = Inl (ArithmeticOverflow Addition (- 1) (- 2147483648))"
    by code_simp
  have 3: "sub m0 (input_matrix [[- 1]]) (input_matrix [[- 2147483648]]) 1
       = Inl (ArithmeticOverflow Addition (- 1) (- 2147483648))"
    by (rule sub_first_failure [where pre = "[]" and post = "[]", OF _ _ g])
       (simp_all add: cells_1)
  from 1 2 3 show ?thesis by (simp add: representable_def)
qed

text \<open>
  C4. Checked subtraction should report the negation of the minimum as an overflow.
  \<open>sub\<close> on the cells \<open>0\<close> and the minimum negates without a check, passes the wrapped
  operand to \<open>check_overflow\<close>, which accepts it, and stores the wrapped difference.
\<close>

theorem sub_zero_min:
  "ebind (sub m0 (input_matrix [[0]]) (input_matrix [[- 2147483648]]) 1) (\<lambda>res. elem res 0 0)
     = Inr (- 2147483648)
   \<and> \<not> representable (sint (0 :: cint) - sint (- 2147483648 :: cint))"
proof -
  have c: "sub_cell (input_matrix [[0]]) (input_matrix [[- 2147483648]]) 0 0
      = Inr (- 2147483648)"
    by code_simp
  have "ebind (sub m0 (input_matrix [[0]]) (input_matrix [[- 2147483648]]) 1)
      (\<lambda>res. elem res 0 0) = Inr (- 2147483648)"
    by (simp add: sub_view_fill view_fill_def cells_1 fill_Cons c store_def elem_def load_def)
  then show ?thesis by (simp add: representable_def)
qed

section \<open>Quadrants\<close>

lemma quad_Inr:
  assumes "quad q0 a di dj h = Inr q"
  shows "i q = i a + di" "j q = j a + dj"
    and "0 \<le> r \<Longrightarrow> r < h \<Longrightarrow> 0 \<le> c \<Longrightarrow> c < h
           \<Longrightarrow> \<exists>v. elem a (di + r) (dj + c) = Inr v \<and> elem q r c = Inr v"
    and "\<not> (i a + di \<le> x \<and> x < i a + di + h \<and> j a + dj \<le> y \<and> y < j a + dj + h)
           \<Longrightarrow> m q x y = m q0 x y"
proof -
  from assms have f: "view_fill (\<lambda>r c. elem a (di + r) (dj + c)) h
      (q0\<lparr>i := i a + di, j := j a + dj\<rparr>) = Inr q"
    by (simp add: quad_view_fill)
  from view_fill_Inr(1,2) [OF f] show "i q = i a + di" "j q = j a + dj" by simp_all
  show "\<exists>v. elem a (di + r) (dj + c) = Inr v \<and> elem q r c = Inr v"
    if "0 \<le> r" "r < h" "0 \<le> c" "c < h"
    using view_fill_Inr(3) [OF f that] .
  show "m q x y = m q0 x y"
    if "\<not> (i a + di \<le> x \<and> x < i a + di + h \<and> j a + dj \<le> y \<and> y < j a + dj + h)"
    using view_fill_Inr(4) [OF f, of x y] that by simp
qed

lemma quad_succeeds:
  assumes "\<And>r c. 0 \<le> r \<Longrightarrow> r < h \<Longrightarrow> 0 \<le> c \<Longrightarrow> c < h \<Longrightarrow> \<exists>v. elem a (di + r) (dj + c) = Inr v"
  shows "\<exists>q. quad q0 a di dj h = Inr q"
  unfolding quad_view_fill
proof (rule view_fill_succeeds)
  fix r c assume rc: "0 \<le> r" "r < h" "0 \<le> c" "c < h"
  from assms [OF rc] obtain v where v: "elem a (di + r) (dj + c) = Inr v" ..
  then have "in_bounds (i a + di + r) (j a + dj + c)"
    by (simp add: elem_eq_Inr_iff add.assoc)
  with v show "(\<exists>v. elem a (di + r) (dj + c) = Inr v)
      \<and> in_bounds (i (q0\<lparr>i := i a + di, j := j a + dj\<rparr>) + r)
          (j (q0\<lparr>i := i a + di, j := j a + dj\<rparr>) + c)"
    by auto
qed

lemma quad_view_is:
  assumes q: "quad q0 a di dj h = Inr q" and v: "view_is a n F"
    and d: "0 \<le> di" "0 \<le> dj" "di + h \<le> n" "dj + h \<le> n"
  shows "view_is q h (\<lambda>r c. F (di + r) (dj + c))"
  unfolding view_is_def
proof (intro allI impI)
  fix r c assume rc: "0 \<le> r \<and> r < h \<and> 0 \<le> c \<and> c < h"
  then have "elem a (di + r) (dj + c) = Inr (F (di + r) (dj + c))"
    using d by (intro view_isD [OF v]) simp_all
  with quad_Inr(3) [OF q, of r c] rc show "elem q r c = Inr (F (di + r) (dj + c))" by auto
qed

lemma quad_view_run:
  assumes v: "view_is a n F" and d: "0 \<le> di" "0 \<le> dj" "di + h \<le> n" "dj + h \<le> n"
  shows "\<exists>q. quad q0 a di dj h = Inr q \<and> view_is q h (\<lambda>r c. F (di + r) (dj + c))
           \<and> i q = i a + di \<and> j q = j a + dj"
proof -
  have "\<exists>q. quad q0 a di dj h = Inr q"
  proof (rule quad_succeeds)
    fix r c assume "0 \<le> r" "r < h" "0 \<le> c" "c < h"
    then have "elem a (di + r) (dj + c) = Inr (F (di + r) (dj + c))"
      using d by (intro view_isD [OF v]) simp_all
    then show "\<exists>v. elem a (di + r) (dj + c) = Inr v" ..
  qed
  then obtain q where q: "quad q0 a di dj h = Inr q" ..
  from q quad_view_is [OF q v d] quad_Inr(1,2) [OF q] show ?thesis by blast
qed

lemma sdiv2_nonneg: "0 \<le> n \<Longrightarrow> n sdiv 2 = n div 2" for n :: int
  by (simp add: signed_divide_int_def sgn_if)

lemma sdiv2_cases:
  "(0 \<le> n \<and> 0 \<le> n sdiv 2 \<and> n sdiv 2 \<le> n) \<or> (n < 0 \<and> n \<le> n sdiv 2 \<and> n sdiv 2 \<le> 0)"
  for n :: int
  by (auto simp: signed_divide_int_def sgn_if)

text \<open>
  C9. For a view of size \<open>n\<close> at least 4 whose cells all lie in the grid, the top left
  quadrant of the top left quadrant exists, has the offsets of the matrix itself, and each
  of its \<open>n/4\<close> by \<open>n/4\<close> cells reads the same as the cell of the matrix at the same
  position relative to the matrix's offsets, whatever the two local structs held before.
\<close>

theorem quadrant_composition:
  assumes n: "4 \<le> n"
    and view: "\<forall>r c. 0 \<le> r \<and> r < n \<and> 0 \<le> c \<and> c < n \<longrightarrow> (\<exists>v. elem a r c = Inr v)"
  shows "\<exists>q1 q2. quad g1 a 0 0 (n sdiv 2) = Inr q1 \<and> quad g2 q1 0 0 (n sdiv 2 sdiv 2) = Inr q2
           \<and> i q2 = i a \<and> j q2 = j a
           \<and> (\<forall>r c. 0 \<le> r \<and> r < n sdiv 4 \<and> 0 \<le> c \<and> c < n sdiv 4
                 \<longrightarrow> elem q2 r c = elem a r c \<and> (\<exists>v. elem a r c = Inr v))"
proof -
  have h: "n sdiv 2 = n div 2" "n sdiv 4 = n div 4"
    using n by (simp_all add: signed_divide_int_def sgn_if)
  have "0 \<le> n div 2" using n by simp
  then have "n div 2 sdiv 2 = n div 2 div 2" by (rule sdiv2_nonneg)
  also have "\<dots> = n div 4" by (simp add: zdiv_zmult2_eq [symmetric])
  finally have h2: "n div 2 sdiv 2 = n div 4" .
  have half: "n div 2 \<le> n" "n div 4 \<le> n div 2" using n by simp_all
  have "\<exists>q. quad g1 a 0 0 (n div 2) = Inr q"
  proof (rule quad_succeeds)
    fix r c assume "0 \<le> r" "r < n div 2" "0 \<le> c" "c < n div 2"
    with half have "0 \<le> r \<and> r < n \<and> 0 \<le> c \<and> c < n" by simp
    with view show "\<exists>v. elem a (0 + r) (0 + c) = Inr v" by simp
  qed
  then obtain q1 where q1: "quad g1 a 0 0 (n div 2) = Inr q1" ..
  have o1: "i q1 = i a" "j q1 = j a"
    using quad_Inr(1,2) [OF q1] by simp_all
  have c1: "\<exists>v. elem a r c = Inr v \<and> elem q1 r c = Inr v"
    if "0 \<le> r" "r < n div 2" "0 \<le> c" "c < n div 2" for r c
    using quad_Inr(3) [OF q1 that] by simp
  have "\<exists>q. quad g2 q1 0 0 (n div 4) = Inr q"
  proof (rule quad_succeeds)
    fix r c assume "0 \<le> r" "r < n div 4" "0 \<le> c" "c < n div 4"
    with half have "0 \<le> r" "r < n div 2" "0 \<le> c" "c < n div 2" by simp_all
    from c1 [OF this] show "\<exists>v. elem q1 (0 + r) (0 + c) = Inr v" by auto
  qed
  then obtain q2 where q2: "quad g2 q1 0 0 (n div 4) = Inr q2" ..
  have o2: "i q2 = i a" "j q2 = j a"
    using quad_Inr(1,2) [OF q2] o1 by simp_all
  have c2: "elem q2 r c = elem a r c \<and> (\<exists>v. elem a r c = Inr v)"
    if rc: "0 \<le> r" "r < n div 4" "0 \<le> c" "c < n div 4" for r c
  proof -
    from rc half have "0 \<le> r" "r < n div 2" "0 \<le> c" "c < n div 2" by simp_all
    from c1 [OF this] quad_Inr(3) [OF q2 rc] show ?thesis by auto
  qed
  show ?thesis
    unfolding h h2 using q1 q2 o2 c2 by auto
qed

lemma input_matrix_readable:
  "0 \<le> r \<Longrightarrow> r < 16 \<Longrightarrow> 0 \<le> c \<Longrightarrow> c < 16 \<Longrightarrow> \<exists>v. elem (input_matrix rows) r c = Inr v"
  by (simp add: elem_eq_Inr_iff in_bounds_def NUM_ELEMS_def)

theorem quadrant_composition_witness:
  "\<exists>q1 q2. quad (junk stale_stack ''A00'') (input_matrix [[1, 2], [9, 10]]) 0 0 (8 sdiv 2) = Inr q1
      \<and> quad (junk stale_stack ''A00'') q1 0 0 (8 sdiv 2 sdiv 2) = Inr q2
      \<and> i q2 = 0 \<and> j q2 = 0 \<and> elem q2 1 1 = Inr 10"
proof -
  let ?A = "input_matrix [[1, 2], [9, 10]]" and ?g = "junk stale_stack ''A00''"
  have n: "(4 :: int) \<le> 8" by simp
  have view: "\<forall>r c. 0 \<le> r \<and> r < 8 \<and> 0 \<le> c \<and> c < 8 \<longrightarrow> (\<exists>v. elem ?A r c = Inr v)"
  proof (intro allI impI)
    fix r c :: int assume "0 \<le> r \<and> r < 8 \<and> 0 \<le> c \<and> c < 8"
    then have "0 \<le> r" "r < 16" "0 \<le> c" "c < 16" by simp_all
    from input_matrix_readable [OF this] show "\<exists>v. elem ?A r c = Inr v" .
  qed
  have e: "elem ?A 1 1 = Inr 10" by code_simp
  have lt: "(0 :: int) \<le> 1 \<and> (1 :: int) < 8 sdiv 4 \<and> (0 :: int) \<le> 1 \<and> (1 :: int) < 8 sdiv 4"
    by simp
  from quadrant_composition [OF n view, of ?g ?g] obtain q1 q2 where
    q: "quad ?g ?A 0 0 (8 sdiv 2) = Inr q1" "quad ?g q1 0 0 (8 sdiv 2 sdiv 2) = Inr q2"
      "i q2 = i ?A" "j q2 = j ?A"
    and c: "\<forall>r c. 0 \<le> r \<and> r < 8 sdiv 4 \<and> 0 \<le> c \<and> c < 8 sdiv 4
                 \<longrightarrow> elem q2 r c = elem ?A r c \<and> (\<exists>v. elem ?A r c = Inr v)"
    by blast
  from c lt have "elem q2 1 1 = elem ?A 1 1" by blast
  with q e show ?thesis by (intro exI [of _ q1] exI [of _ q2]) simp
qed

section \<open>The base case\<close>

lemma operand_checks_readable:
  assumes "operand_checks a b = Inr ()"
  shows "\<exists>a00 a01 a10 a11 b00 b01 b10 b11.
    elem a 0 0 = Inr a00 \<and> elem a 0 1 = Inr a01 \<and> elem a 1 0 = Inr a10 \<and> elem a 1 1 = Inr a11
    \<and> elem b 0 0 = Inr b00 \<and> elem b 0 1 = Inr b01 \<and> elem b 1 0 = Inr b10 \<and> elem b 1 1 = Inr b11"
proof -
  from assms have
    "chk (elem a 0 0) (elem a 1 1) True False = Inr ()"
    "chk (elem b 0 0) (elem b 1 1) True False = Inr ()"
    "chk (elem a 1 0) (elem a 1 1) True False = Inr ()"
    "chk (elem b 0 1) (eneg (elem b 1 1)) True False = Inr ()"
    "chk (elem b 1 0) (eneg (elem b 0 0)) True False = Inr ()"
    "chk (elem a 0 0) (elem a 0 1) True False = Inr ()"
    by (simp_all add: operand_checks_def ebind_eq_Inr_iff)
  then show ?thesis
    unfolding chk_def ebind_eq_Inr_iff by blast
qed

text \<open>
  With the eight cells readable, the base case is its two groups of checks followed by
  four stores into the local \<open>c\<close>, whose offsets are those of \<open>a\<close>.
\<close>

lemma strassen_2x2_unfold:
  assumes e: "elem a 0 0 = Inr a00" "elem a 0 1 = Inr a01" "elem a 1 0 = Inr a10"
      "elem a 1 1 = Inr a11" "elem b 0 0 = Inr b00" "elem b 0 1 = Inr b01"
      "elem b 1 0 = Inr b10" "elem b 1 1 = Inr b11"
    and p: "m1 = (a00 + a11) * (b00 + b11)" "m2 = (a10 + a11) * b00" "m3 = a00 * (b01 - b11)"
      "m4 = a11 * (b10 - b00)" "m5 = (a00 + a01) * b11" "m6 = (a10 - a00) * (b00 + b01)"
      "m7 = (a01 - a11) * (b10 + b11)"
  shows "strassen_2x2 c0 a b =
     ebind (operand_checks a b) (\<lambda>_. ebind (result_checks m1 m2 m3 m4 m5 m6 m7) (\<lambda>_.
       Inr (wr_at (wr_at (wr_at (wr_at (c0\<lparr>i := i a, j := j a\<rparr>)
         (i a + 0) (j a + 0) (m1 + m4 - m5 + m7)) (i a + 0) (j a + 1) (m3 + m5))
         (i a + 1) (j a + 0) (m2 + m4)) (i a + 1) (j a + 1) (m1 - m2 + m3 + m6))))"
proof -
  have bnd: "in_bounds (i a + 0) (j a + 0)" "in_bounds (i a + 0) (j a + 1)"
    "in_bounds (i a + 1) (j a + 0)" "in_bounds (i a + 1) (j a + 1)"
    using e(1-4) by (simp_all add: elem_eq_Inr_iff)
  show ?thesis
    using bnd
    by (simp add: strassen_2x2_def etimes_def eplus_def eminus_def e p put_view_def store_def)
qed

lemma strassen_2x2_Inr:
  assumes "strassen_2x2 c0 a b = Inr c"
  shows "i c = i a" "j c = j a"
    and "\<exists>a00 a01 a10 a11 b00 b01 b10 b11.
      elem a 0 0 = Inr a00 \<and> elem a 0 1 = Inr a01 \<and> elem a 1 0 = Inr a10 \<and> elem a 1 1 = Inr a11
      \<and> elem b 0 0 = Inr b00 \<and> elem b 0 1 = Inr b01 \<and> elem b 1 0 = Inr b10 \<and> elem b 1 1 = Inr b11
      \<and> elem c 0 0 = Inr (a00 * b00 + a01 * b10) \<and> elem c 0 1 = Inr (a00 * b01 + a01 * b11)
      \<and> elem c 1 0 = Inr (a10 * b00 + a11 * b10) \<and> elem c 1 1 = Inr (a10 * b01 + a11 * b11)"
    and "\<not> (i a \<le> x \<and> x < i a + 2 \<and> j a \<le> y \<and> y < j a + 2) \<Longrightarrow> m c x y = m c0 x y"
proof -
  from assms have oc: "operand_checks a b = Inr ()"
    by (auto simp: strassen_2x2_def ebind_eq_Inr_iff)
  from operand_checks_readable [OF oc] obtain a00 a01 a10 a11 b00 b01 b10 b11 where
    e: "elem a 0 0 = Inr a00" "elem a 0 1 = Inr a01" "elem a 1 0 = Inr a10" "elem a 1 1 = Inr a11"
      "elem b 0 0 = Inr b00" "elem b 0 1 = Inr b01" "elem b 1 0 = Inr b10" "elem b 1 1 = Inr b11"
    by blast
  have bnd: "in_bounds (i a + 0) (j a + 0)" "in_bounds (i a + 0) (j a + 1)"
    "in_bounds (i a + 1) (j a + 0)" "in_bounds (i a + 1) (j a + 1)"
    using e(1-4) by (simp_all add: elem_eq_Inr_iff)
  define m1 where "m1 = (a00 + a11) * (b00 + b11)"
  define m2 where "m2 = (a10 + a11) * b00"
  define m3 where "m3 = a00 * (b01 - b11)"
  define m4 where "m4 = a11 * (b10 - b00)"
  define m5 where "m5 = (a00 + a01) * b11"
  define m6 where "m6 = (a10 - a00) * (b00 + b01)"
  define m7 where "m7 = (a01 - a11) * (b10 + b11)"
  define c' where "c' = wr_at (wr_at (wr_at (wr_at (c0\<lparr>i := i a, j := j a\<rparr>)
      (i a + 0) (j a + 0) (m1 + m4 - m5 + m7)) (i a + 0) (j a + 1) (m3 + m5))
      (i a + 1) (j a + 0) (m2 + m4)) (i a + 1) (j a + 1) (m1 - m2 + m3 + m6)"
  have "strassen_2x2 c0 a b
      = ebind (operand_checks a b) (\<lambda>_. ebind (result_checks m1 m2 m3 m4 m5 m6 m7) (\<lambda>_. Inr c'))"
    unfolding c'_def
    by (rule strassen_2x2_unfold [OF e m1_def m2_def m3_def m4_def m5_def m6_def m7_def])
  with assms oc have c: "c = c'" by (auto simp: ebind_eq_Inr_iff)
  show "i c = i a" "j c = j a" by (simp_all add: c c'_def)
  have "elem c 0 0 = Inr (m1 + m4 - m5 + m7)" "elem c 0 1 = Inr (m3 + m5)"
    "elem c 1 0 = Inr (m2 + m4)" "elem c 1 1 = Inr (m1 - m2 + m3 + m6)"
    using bnd by (simp_all add: c c'_def elem_eq_Inr_iff)
  moreover have "m1 + m4 - m5 + m7 = a00 * b00 + a01 * b10" "m3 + m5 = a00 * b01 + a01 * b11"
    "m2 + m4 = a10 * b00 + a11 * b10" "m1 - m2 + m3 + m6 = a10 * b01 + a11 * b11"
    by (simp_all add: m1_def m2_def m3_def m4_def m5_def m6_def m7_def algebra_simps)
  ultimately show "\<exists>a00 a01 a10 a11 b00 b01 b10 b11.
      elem a 0 0 = Inr a00 \<and> elem a 0 1 = Inr a01 \<and> elem a 1 0 = Inr a10 \<and> elem a 1 1 = Inr a11
      \<and> elem b 0 0 = Inr b00 \<and> elem b 0 1 = Inr b01 \<and> elem b 1 0 = Inr b10 \<and> elem b 1 1 = Inr b11
      \<and> elem c 0 0 = Inr (a00 * b00 + a01 * b10) \<and> elem c 0 1 = Inr (a00 * b01 + a01 * b11)
      \<and> elem c 1 0 = Inr (a10 * b00 + a11 * b10) \<and> elem c 1 1 = Inr (a10 * b01 + a11 * b11)"
    using e by simp
  show "m c x y = m c0 x y" if "\<not> (i a \<le> x \<and> x < i a + 2 \<and> j a \<le> y \<and> y < j a + 2)"
    using that by (auto simp: c c'_def)
qed

lemma base_view_is:
  assumes s: "strassen_2x2 c0 a b = Inr res"
    and v: "view_is a 2 F" "view_is b 2 G"
  shows "view_is res 2 (\<lambda>r c. F r 0 * G 0 c + F r 1 * G 1 c)"
proof -
  have e: "elem a 0 0 = Inr (F 0 0)" "elem a 0 1 = Inr (F 0 1)"
    "elem a 1 0 = Inr (F 1 0)" "elem a 1 1 = Inr (F 1 1)"
    "elem b 0 0 = Inr (G 0 0)" "elem b 0 1 = Inr (G 0 1)"
    "elem b 1 0 = Inr (G 1 0)" "elem b 1 1 = Inr (G 1 1)"
    using v by (simp_all add: view_is_def)
  from strassen_2x2_Inr(3) [OF s] e
  have c: "elem res 0 0 = Inr (F 0 0 * G 0 0 + F 0 1 * G 1 0)"
    "elem res 0 1 = Inr (F 0 0 * G 0 1 + F 0 1 * G 1 1)"
    "elem res 1 0 = Inr (F 1 0 * G 0 0 + F 1 1 * G 1 0)"
    "elem res 1 1 = Inr (F 1 0 * G 0 1 + F 1 1 * G 1 1)"
    by auto
  show ?thesis
    unfolding view_is_def
  proof (intro allI impI)
    fix r k :: int assume "0 \<le> r \<and> r < 2 \<and> 0 \<le> k \<and> k < 2"
    then have "(r = 0 \<or> r = 1) \<and> (k = 0 \<or> k = 1)" by auto
    with c show "elem res r k = Inr (F r 0 * G 0 k + F r 1 * G 1 k)" by auto
  qed
qed

lemma strassen_base:
  "strassen_matrix_multiply sf stk (Suc d) a b 2 = Some (strassen_2x2 (junk stk ''c'') a b)"
  by simp

lemma strassen_depth_Suc:
  "strassen_matrix_multiply sf stk depth a b n = Some r \<Longrightarrow> \<exists>d. depth = Suc d"
  by (cases depth) simp_all

lemma strassen_base_Inr:
  "strassen_matrix_multiply sf stk depth a b 2 = Some (Inr res)
     \<Longrightarrow> strassen_2x2 (junk stk ''c'') a b = Inr res"
  by (cases depth) simp_all

text \<open>
  C6. For \<open>n = 2\<close>, \<open>A = [[1,2],[3,4]]\<close> and \<open>B = [[5,6],[7,8]]\<close> the call succeeds and
  the four cells of the result, read through its offsets, are \<open>19, 22, 43, 50\<close>, whatever
  the stack held and in whichever order arguments are evaluated. The seven products
  \<open>m1\<close> .. \<open>m7\<close> of lines 236-249 are \<open>65, 35, -2, 8, 24, 22, -30\<close>, and the four sums of
  lines 270-273 over them are the four cells.
\<close>

theorem strassen_2x2_example:
  "obind (strassen_matrix_multiply second_first stk (Suc depth)
            (input_matrix [[1, 2], [3, 4]]) (input_matrix [[5, 6], [7, 8]]) 2)
     (\<lambda>c. Some (Inr (elem c 0 0, elem c 0 1, elem c 1 0, elem c 1 1)))
   = Some (Inr (Inr 19, Inr 22, Inr 43, Inr 50))
   \<and> [etimes (eplus (elem (input_matrix [[1, 2], [3, 4]]) 0 0) (elem (input_matrix [[1, 2], [3, 4]]) 1 1))
         (eplus (elem (input_matrix [[5, 6], [7, 8]]) 0 0) (elem (input_matrix [[5, 6], [7, 8]]) 1 1)),
       etimes (eplus (elem (input_matrix [[1, 2], [3, 4]]) 1 0) (elem (input_matrix [[1, 2], [3, 4]]) 1 1))
         (elem (input_matrix [[5, 6], [7, 8]]) 0 0),
       etimes (elem (input_matrix [[1, 2], [3, 4]]) 0 0)
         (eminus (elem (input_matrix [[5, 6], [7, 8]]) 0 1) (elem (input_matrix [[5, 6], [7, 8]]) 1 1)),
       etimes (elem (input_matrix [[1, 2], [3, 4]]) 1 1)
         (eminus (elem (input_matrix [[5, 6], [7, 8]]) 1 0) (elem (input_matrix [[5, 6], [7, 8]]) 0 0)),
       etimes (eplus (elem (input_matrix [[1, 2], [3, 4]]) 0 0) (elem (input_matrix [[1, 2], [3, 4]]) 0 1))
         (elem (input_matrix [[5, 6], [7, 8]]) 1 1),
       etimes (eminus (elem (input_matrix [[1, 2], [3, 4]]) 1 0) (elem (input_matrix [[1, 2], [3, 4]]) 0 0))
         (eplus (elem (input_matrix [[5, 6], [7, 8]]) 0 0) (elem (input_matrix [[5, 6], [7, 8]]) 0 1)),
       etimes (eminus (elem (input_matrix [[1, 2], [3, 4]]) 0 1) (elem (input_matrix [[1, 2], [3, 4]]) 1 1))
         (eplus (elem (input_matrix [[5, 6], [7, 8]]) 1 0) (elem (input_matrix [[5, 6], [7, 8]]) 1 1))]
     = [Inr 65, Inr 35, Inr (- 2), Inr 8, Inr 24, Inr 22, Inr (- 30)]
   \<and> (65 + 8 - 24 + (- 30) :: cint) = 19 \<and> (- 2 + 24 :: cint) = 22
   \<and> (35 + 8 :: cint) = 43 \<and> (65 - 35 + (- 2) + 22 :: cint) = 50"
proof -
  let ?A = "input_matrix [[1, 2], [3, 4]]" and ?B = "input_matrix [[5, 6], [7, 8]]"
  have e: "elem ?A 0 0 = Inr 1" "elem ?A 0 1 = Inr 2" "elem ?A 1 0 = Inr 3" "elem ?A 1 1 = Inr 4"
    "elem ?B 0 0 = Inr 5" "elem ?B 0 1 = Inr 6" "elem ?B 1 0 = Inr 7" "elem ?B 1 1 = Inr 8"
    by code_simp+
  have p: "(65 :: cint) = (1 + 4) * (5 + 8)" "(35 :: cint) = (3 + 4) * 5"
    "(- 2 :: cint) = 1 * (6 - 8)" "(8 :: cint) = 4 * (7 - 5)" "(24 :: cint) = (1 + 2) * 8"
    "(22 :: cint) = (3 - 1) * (5 + 6)" "(- 30 :: cint) = (2 - 4) * (7 + 8)"
    by simp_all
  have oc: "operand_checks ?A ?B = Inr ()" by code_simp
  have rc: "result_checks 65 35 (- 2) 8 24 22 (- 30) = Inr ()" by code_simp
  have "ebind (strassen_2x2 (junk stk ''c'') ?A ?B)
     (\<lambda>c. Inr (elem c 0 0, elem c 0 1, elem c 1 0, elem c 1 1))
   = Inr (Inr 19, Inr 22, Inr 43, Inr 50)"
    unfolding strassen_2x2_unfold [OF e p]
    by (simp add: oc rc elem_def load_def)
  then have "obind (strassen_matrix_multiply second_first stk (Suc depth) ?A ?B 2)
     (\<lambda>c. Some (Inr (elem c 0 0, elem c 0 1, elem c 1 0, elem c 1 1)))
   = Some (Inr (Inr 19, Inr 22, Inr 43, Inr 50))"
    by (cases "strassen_2x2 (junk stk ''c'') ?A ?B") simp_all
  moreover have "[etimes (eplus (elem ?A 0 0) (elem ?A 1 1)) (eplus (elem ?B 0 0) (elem ?B 1 1)),
       etimes (eplus (elem ?A 1 0) (elem ?A 1 1)) (elem ?B 0 0),
       etimes (elem ?A 0 0) (eminus (elem ?B 0 1) (elem ?B 1 1)),
       etimes (elem ?A 1 1) (eminus (elem ?B 1 0) (elem ?B 0 0)),
       etimes (eplus (elem ?A 0 0) (elem ?A 0 1)) (elem ?B 1 1),
       etimes (eminus (elem ?A 1 0) (elem ?A 0 0)) (eplus (elem ?B 0 0) (elem ?B 0 1)),
       etimes (eminus (elem ?A 0 1) (elem ?A 1 1)) (eplus (elem ?B 1 0) (elem ?B 1 1))]
     = [Inr 65, Inr 35, Inr (- 2), Inr 8, Inr 24, Inr 22, Inr (- 30)]"
    by code_simp
  ultimately show ?thesis by simp
qed

text \<open>
  The base case negates in the same way as \<open>sub\<close> (lines 208, 213, 223, 229, 256, 266).
  Here \<open>m5\<close> is the minimum, its negation wraps, and the cell \<open>(0, 0)\<close> of the result is the
  wrapped value of \<open>0 * 0 + 65536 * 32768\<close>, with no overflow reported.
\<close>

lemma strassen_2x2_silent_wrap:
  "ebind (strassen_2x2 c0 (input_matrix [[0, 65536], [0, 0]])
            (input_matrix [[0, 0], [32768, - 32768]])) (\<lambda>c. elem c 0 0)
     = Inr (- 2147483648)
   \<and> \<not> representable (sint (0 :: cint) * sint (0 :: cint)
                          + sint (65536 :: cint) * sint (32768 :: cint))"
proof -
  let ?A = "input_matrix [[0, 65536], [0, 0]]" and ?B = "input_matrix [[0, 0], [32768, - 32768]]"
  have e: "elem ?A 0 0 = Inr 0" "elem ?A 0 1 = Inr 65536" "elem ?A 1 0 = Inr 0"
    "elem ?A 1 1 = Inr 0" "elem ?B 0 0 = Inr 0" "elem ?B 0 1 = Inr 0"
    "elem ?B 1 0 = Inr 32768" "elem ?B 1 1 = Inr (- 32768)"
    by code_simp+
  have oc: "operand_checks ?A ?B = Inr ()" by code_simp
  have p: "(0 :: cint) = (0 + 0) * (0 + - 32768)" "(0 :: cint) = (0 + 0) * 0"
    "(0 :: cint) = 0 * (0 - - 32768)" "(0 :: cint) = 0 * (32768 - 0)"
    "(- 2147483648 :: cint) = (0 + 65536) * - 32768" "(0 :: cint) = (0 - 0) * (0 + 0)"
    "(0 :: cint) = (65536 - 0) * (32768 + - 32768)"
    by simp_all
  have rc: "result_checks 0 0 0 0 (- 2147483648) 0 0 = Inr ()" by code_simp
  have "ebind (strassen_2x2 c0 ?A ?B) (\<lambda>c. elem c 0 0) = Inr (- 2147483648)"
    unfolding strassen_2x2_unfold [OF e p]
    by (simp add: oc rc elem_def load_def)
  then show ?thesis by (simp add: representable_def)
qed

section \<open>Assembly of the result\<close>

lemma assemble_fills:
  assumes "assemble res0 Q1 Q2 Q3 Q4 n = Inr res"
  obtains s1 s2 s3 where
    "fill (\<lambda>p. elem Q1 (fst p) (snd p)) (\<lambda>p. p)
       (List.product [0..n sdiv 2 - 1] [0..n sdiv 2 - 1]) res0 = Inr s1"
    "fill (\<lambda>p. elem Q2 (fst p) (snd p - n sdiv 2)) (\<lambda>p. p)
       (List.product [0..n sdiv 2 - 1] [n sdiv 2..n - 1]) s1 = Inr s2"
    "fill (\<lambda>p. elem Q3 (fst p - n sdiv 2) (snd p)) (\<lambda>p. p)
       (List.product [n sdiv 2..n - 1] [0..n sdiv 2 - 1]) s2 = Inr s3"
    "fill (\<lambda>p. elem Q4 (fst p - n sdiv 2) (snd p - n sdiv 2)) (\<lambda>p. p)
       (List.product [n sdiv 2..n - 1] [n sdiv 2..n - 1]) s3 = Inr res"
  using assms by (auto simp: assemble_def Let_def ebind_eq_Inr_iff abs_loop_fill)

lemma inj_on_id_pair [simp]: "inj_on (\<lambda>p. p) A"
  by (simp add: inj_on_def)

lemma fill_id_cell:
  assumes f: "fill val (\<lambda>p. p) (List.product [a..b - 1] [c..d - 1]) s = Inr t"
    and rc: "a \<le> r" "r < b" "c \<le> k" "k < d"
  shows "val (r, k) = Inr (m t r k) \<and> in_bounds r k"
proof -
  have mem: "(r, k) \<in> set (List.product [a..b - 1] [c..d - 1])"
    using rc by (simp add: set_cells del: set_product)
  from fill_vals [OF f mem] obtain v where v: "val (r, k) = Inr v" and b: "in_bounds r k"
    by auto
  have "m t (fst (r, k)) (snd (r, k)) = v"
    by (rule fill_inside [OF f _ _ mem v]) simp_all
  with v b show ?thesis by simp
qed

lemma fill_id_other:
  assumes f: "fill val (\<lambda>p. p) (List.product [a..b - 1] [c..d - 1]) s = Inr t"
    and rc: "\<not> (a \<le> r \<and> r < b \<and> c \<le> k \<and> k < d)"
  shows "m t r k = m s r k"
proof (rule fill_outside [OF f])
  show "(r, k) \<notin> (\<lambda>p. p) ` set (List.product [a..b - 1] [c..d - 1])"
    using rc by (auto simp: set_cells simp del: set_product)
qed

lemma fill_id_succeeds:
  assumes "\<And>r k. a \<le> r \<Longrightarrow> r < b \<Longrightarrow> c \<le> k \<Longrightarrow> k < d
             \<Longrightarrow> (\<exists>v. val (r, k) = Inr v) \<and> in_bounds r k"
  shows "\<exists>t. fill val (\<lambda>p. p) (List.product [a..b - 1] [c..d - 1]) s = Inr t"
proof (rule fill_succeeds)
  fix p assume "p \<in> set (List.product [a..b - 1] [c..d - 1])"
  then have "a \<le> fst p" "fst p < b" "c \<le> snd p" "snd p < d"
    by (simp_all add: set_cells del: set_product)
  from assms [OF this] show "(\<exists>v. val p = Inr v) \<and> in_bounds (fst p) (snd p)" by simp
qed

text \<open>
  The assembled result: the offsets and all cells outside rows and columns \<open>[0, n)\<close> are
  what the local \<open>res\<close> held before; the cells inside are those of the four quadrant
  results, read through their own offsets.
\<close>

lemma assemble_Inr:
  assumes "assemble res0 Q1 Q2 Q3 Q4 n = Inr res"
  shows "i res = i res0" "j res = j res0"
    and "\<not> (0 \<le> r \<and> r < n \<and> 0 \<le> c \<and> c < n) \<Longrightarrow> m res r c = m res0 r c"
proof -
  from assms obtain s1 s2 s3 where
    f1: "fill (\<lambda>p. elem Q1 (fst p) (snd p)) (\<lambda>p. p)
       (List.product [0..n sdiv 2 - 1] [0..n sdiv 2 - 1]) res0 = Inr s1"
    and f2: "fill (\<lambda>p. elem Q2 (fst p) (snd p - n sdiv 2)) (\<lambda>p. p)
       (List.product [0..n sdiv 2 - 1] [n sdiv 2..n - 1]) s1 = Inr s2"
    and f3: "fill (\<lambda>p. elem Q3 (fst p - n sdiv 2) (snd p)) (\<lambda>p. p)
       (List.product [n sdiv 2..n - 1] [0..n sdiv 2 - 1]) s2 = Inr s3"
    and f4: "fill (\<lambda>p. elem Q4 (fst p - n sdiv 2) (snd p - n sdiv 2)) (\<lambda>p. p)
       (List.product [n sdiv 2..n - 1] [n sdiv 2..n - 1]) s3 = Inr res"
    by (rule assemble_fills)
  from fill_offsets [OF f1] fill_offsets [OF f2] fill_offsets [OF f3] fill_offsets [OF f4]
  show "i res = i res0" "j res = j res0" by simp_all
  show "m res r c = m res0 r c" if out: "\<not> (0 \<le> r \<and> r < n \<and> 0 \<le> c \<and> c < n)"
  proof -
    have hc: "(0 \<le> n \<and> 0 \<le> n sdiv 2 \<and> n sdiv 2 \<le> n) \<or> (n < 0 \<and> n \<le> n sdiv 2 \<and> n sdiv 2 \<le> 0)"
      by (rule sdiv2_cases)
    have "m res r c = m s3 r c" by (rule fill_id_other [OF f4]) (use out hc in auto)
    also have "\<dots> = m s2 r c" by (rule fill_id_other [OF f3]) (use out hc in auto)
    also have "\<dots> = m s1 r c" by (rule fill_id_other [OF f2]) (use out hc in auto)
    also have "\<dots> = m res0 r c" by (rule fill_id_other [OF f1]) (use out hc in auto)
    finally show ?thesis .
  qed
qed

lemma assemble_cells:
  assumes "assemble res0 Q1 Q2 Q3 Q4 n = Inr res"
  shows "0 \<le> r \<Longrightarrow> r < n sdiv 2 \<Longrightarrow> 0 \<le> c \<Longrightarrow> c < n sdiv 2
           \<Longrightarrow> elem Q1 r c = Inr (m res r c)"
    and "0 \<le> r \<Longrightarrow> r < n sdiv 2 \<Longrightarrow> n sdiv 2 \<le> c \<Longrightarrow> c < n
           \<Longrightarrow> elem Q2 r (c - n sdiv 2) = Inr (m res r c)"
    and "n sdiv 2 \<le> r \<Longrightarrow> r < n \<Longrightarrow> 0 \<le> c \<Longrightarrow> c < n sdiv 2
           \<Longrightarrow> elem Q3 (r - n sdiv 2) c = Inr (m res r c)"
    and "n sdiv 2 \<le> r \<Longrightarrow> r < n \<Longrightarrow> n sdiv 2 \<le> c \<Longrightarrow> c < n
           \<Longrightarrow> elem Q4 (r - n sdiv 2) (c - n sdiv 2) = Inr (m res r c)"
proof -
  from assms obtain s1 s2 s3 where
    f1: "fill (\<lambda>p. elem Q1 (fst p) (snd p)) (\<lambda>p. p)
       (List.product [0..n sdiv 2 - 1] [0..n sdiv 2 - 1]) res0 = Inr s1"
    and f2: "fill (\<lambda>p. elem Q2 (fst p) (snd p - n sdiv 2)) (\<lambda>p. p)
       (List.product [0..n sdiv 2 - 1] [n sdiv 2..n - 1]) s1 = Inr s2"
    and f3: "fill (\<lambda>p. elem Q3 (fst p - n sdiv 2) (snd p)) (\<lambda>p. p)
       (List.product [n sdiv 2..n - 1] [0..n sdiv 2 - 1]) s2 = Inr s3"
    and f4: "fill (\<lambda>p. elem Q4 (fst p - n sdiv 2) (snd p - n sdiv 2)) (\<lambda>p. p)
       (List.product [n sdiv 2..n - 1] [n sdiv 2..n - 1]) s3 = Inr res"
    by (rule assemble_fills)
  show "elem Q1 r c = Inr (m res r c)"
    if rc: "0 \<le> r" "r < n sdiv 2" "0 \<le> c" "c < n sdiv 2"
  proof -
    have "m res r c = m s1 r c"
      using fill_id_other [OF f2, of r c] fill_id_other [OF f3, of r c]
        fill_id_other [OF f4, of r c] rc by simp
    with fill_id_cell [OF f1 rc] show ?thesis by simp
  qed
  show "elem Q2 r (c - n sdiv 2) = Inr (m res r c)"
    if rc: "0 \<le> r" "r < n sdiv 2" "n sdiv 2 \<le> c" "c < n"
  proof -
    have "m res r c = m s2 r c"
      using fill_id_other [OF f3, of r c] fill_id_other [OF f4, of r c] rc by simp
    with fill_id_cell [OF f2 rc] show ?thesis by simp
  qed
  show "elem Q3 (r - n sdiv 2) c = Inr (m res r c)"
    if rc: "n sdiv 2 \<le> r" "r < n" "0 \<le> c" "c < n sdiv 2"
  proof -
    have "m res r c = m s3 r c"
      using fill_id_other [OF f4, of r c] rc by simp
    with fill_id_cell [OF f3 rc] show ?thesis by simp
  qed
  show "elem Q4 (r - n sdiv 2) (c - n sdiv 2) = Inr (m res r c)"
    if rc: "n sdiv 2 \<le> r" "r < n" "n sdiv 2 \<le> c" "c < n"
    using fill_id_cell [OF f4 rc] by simp
qed

text \<open>The last loop writes the cell \<open>(n - 1, n - 1)\<close>, which must lie in the grid.\<close>

lemma assemble_in_grid:
  assumes "assemble res0 Q1 Q2 Q3 Q4 n = Inr res"
  shows "n \<le> 16"
proof (rule ccontr)
  assume "\<not> n \<le> 16"
  then have n: "16 < n" by simp
  then have h: "n sdiv 2 \<le> n - 1" by (simp add: signed_divide_int_def sgn_if)
  from assms obtain s3 where
    f4: "fill (\<lambda>p. elem Q4 (fst p - n sdiv 2) (snd p - n sdiv 2)) (\<lambda>p. p)
       (List.product [n sdiv 2..n - 1] [n sdiv 2..n - 1]) s3 = Inr res"
    by (rule assemble_fills)
  from fill_id_cell [OF f4, of "n - 1" "n - 1"] h have "in_bounds (n - 1) (n - 1)" by simp
  with n show False by (simp add: in_bounds_def NUM_ELEMS_def)
qed

lemma assemble_succeeds:
  assumes q: "\<And>r c. 0 \<le> r \<Longrightarrow> r < h \<Longrightarrow> 0 \<le> c \<Longrightarrow> c < h \<Longrightarrow>
      (\<exists>v. elem Q1 r c = Inr v) \<and> (\<exists>v. elem Q2 r c = Inr v)
      \<and> (\<exists>v. elem Q3 r c = Inr v) \<and> (\<exists>v. elem Q4 r c = Inr v)"
    and n: "n = 2 * h" "0 \<le> h" "n \<le> 16"
  shows "\<exists>res. assemble res0 Q1 Q2 Q3 Q4 n = Inr res"
proof -
  have h: "n sdiv 2 = h" using n by (simp add: signed_divide_int_def sgn_if)
  have b: "in_bounds r c" if "0 \<le> r" "r < n" "0 \<le> c" "c < n" for r c
    using that n by (simp add: in_bounds_def NUM_ELEMS_def)
  have "\<exists>t. fill (\<lambda>p. elem Q1 (fst p) (snd p)) (\<lambda>p. p)
       (List.product [0..h - 1] [0..h - 1]) res0 = Inr t"
    by (rule fill_id_succeeds) (use q b n in auto)
  then obtain s1 where f1: "fill (\<lambda>p. elem Q1 (fst p) (snd p)) (\<lambda>p. p)
       (List.product [0..h - 1] [0..h - 1]) res0 = Inr s1" ..
  have "\<exists>t. fill (\<lambda>p. elem Q2 (fst p) (snd p - h)) (\<lambda>p. p)
       (List.product [0..h - 1] [h..n - 1]) s1 = Inr t"
  proof (rule fill_id_succeeds)
    fix r k assume "0 \<le> r" "r < h" "h \<le> k" "k < n"
    with q [of r "k - h"] b [of r k] n
    show "(\<exists>v. elem Q2 (fst (r, k)) (snd (r, k) - h) = Inr v) \<and> in_bounds r k" by simp
  qed
  then obtain s2 where f2: "fill (\<lambda>p. elem Q2 (fst p) (snd p - h)) (\<lambda>p. p)
       (List.product [0..h - 1] [h..n - 1]) s1 = Inr s2" ..
  have "\<exists>t. fill (\<lambda>p. elem Q3 (fst p - h) (snd p)) (\<lambda>p. p)
       (List.product [h..n - 1] [0..h - 1]) s2 = Inr t"
  proof (rule fill_id_succeeds)
    fix r k assume "h \<le> r" "r < n" "0 \<le> k" "k < h"
    with q [of "r - h" k] b [of r k] n
    show "(\<exists>v. elem Q3 (fst (r, k) - h) (snd (r, k)) = Inr v) \<and> in_bounds r k" by simp
  qed
  then obtain s3 where f3: "fill (\<lambda>p. elem Q3 (fst p - h) (snd p)) (\<lambda>p. p)
       (List.product [h..n - 1] [0..h - 1]) s2 = Inr s3" ..
  have "\<exists>t. fill (\<lambda>p. elem Q4 (fst p - h) (snd p - h)) (\<lambda>p. p)
       (List.product [h..n - 1] [h..n - 1]) s3 = Inr t"
  proof (rule fill_id_succeeds)
    fix r k assume "h \<le> r" "r < n" "h \<le> k" "k < n"
    with q [of "r - h" "k - h"] b [of r k] n
    show "(\<exists>v. elem Q4 (fst (r, k) - h) (snd (r, k) - h) = Inr v) \<and> in_bounds r k" by simp
  qed
  then obtain res where f4: "fill (\<lambda>p. elem Q4 (fst p - h) (snd p - h)) (\<lambda>p. p)
       (List.product [h..n - 1] [h..n - 1]) s3 = Inr res" ..
  from f1 f2 f3 f4 show ?thesis
    by (simp add: assemble_def Let_def h abs_loop_fill)
qed

section \<open>The recursion\<close>

lemma call2_eq_Some_Inr_iff:
  "call2 sf f x y = Some (Inr r) \<longleftrightarrow> (\<exists>x' y'. x = Inr x' \<and> y = Inr y' \<and> f x' y' = Some (Inr r))"
  by (cases x; cases y; cases sf) (simp_all add: call2_def)

lemma call2_Inr [simp]: "call2 sf f (Inr x) (Inr y) = f x y"
  by (simp add: call2_def)

text \<open>A completed call of the recursive branch, step by step.\<close>

lemma strassen_rec_unfold:
  assumes "strassen_matrix_multiply sf stk (Suc d) a b n = Some (Inr res)" and "n \<noteq> 2"
  obtains A00 A01 A10 A11 B00 B01 B10 B11 S1 T1 S2 T3 T4 S5 S6 T6 S7 T7
    M1 M2 M3 M4 M5 M6 M7 U1 U2 Q1 Q2 Q3 U3 U4 Q4
  where "quad (junk stk ''A00'') a 0 0 (n sdiv 2) = Inr A00"
    "quad (junk stk ''A01'') a 0 (n sdiv 2) (n sdiv 2) = Inr A01"
    "quad (junk stk ''A10'') a (n sdiv 2) 0 (n sdiv 2) = Inr A10"
    "quad (junk stk ''A11'') a (n sdiv 2) (n sdiv 2) (n sdiv 2) = Inr A11"
    "quad (junk stk ''B00'') b 0 0 (n sdiv 2) = Inr B00"
    "quad (junk stk ''B01'') b 0 (n sdiv 2) (n sdiv 2) = Inr B01"
    "quad (junk stk ''B10'') b (n sdiv 2) 0 (n sdiv 2) = Inr B10"
    "quad (junk stk ''B11'') b (n sdiv 2) (n sdiv 2) (n sdiv 2) = Inr B11"
    "add (junk stk ''M1.a'') A00 A11 (n sdiv 2) = Inr S1"
    "add (junk stk ''M1.b'') B00 B11 (n sdiv 2) = Inr T1"
    "strassen_matrix_multiply sf (frame stk ''M1'') d S1 T1 (n sdiv 2) = Some (Inr M1)"
    "add (junk stk ''M2.a'') A10 A11 (n sdiv 2) = Inr S2"
    "strassen_matrix_multiply sf (frame stk ''M2'') d S2 B00 (n sdiv 2) = Some (Inr M2)"
    "sub (junk stk ''M3.b'') B01 B11 (n sdiv 2) = Inr T3"
    "strassen_matrix_multiply sf (frame stk ''M3'') d A00 T3 (n sdiv 2) = Some (Inr M3)"
    "sub (junk stk ''M4.b'') B10 B00 (n sdiv 2) = Inr T4"
    "strassen_matrix_multiply sf (frame stk ''M4'') d A11 T4 (n sdiv 2) = Some (Inr M4)"
    "add (junk stk ''M5.a'') A00 A01 (n sdiv 2) = Inr S5"
    "strassen_matrix_multiply sf (frame stk ''M5'') d S5 B11 (n sdiv 2) = Some (Inr M5)"
    "sub (junk stk ''M6.a'') A10 A00 (n sdiv 2) = Inr S6"
    "add (junk stk ''M6.b'') B00 B01 (n sdiv 2) = Inr T6"
    "strassen_matrix_multiply sf (frame stk ''M6'') d S6 T6 (n sdiv 2) = Some (Inr M6)"
    "sub (junk stk ''M7.a'') A01 A11 (n sdiv 2) = Inr S7"
    "add (junk stk ''M7.b'') B10 B11 (n sdiv 2) = Inr T7"
    "strassen_matrix_multiply sf (frame stk ''M7'') d S7 T7 (n sdiv 2) = Some (Inr M7)"
    "add (junk stk ''Q1.1'') M1 M4 (n sdiv 2) = Inr U1"
    "sub (junk stk ''Q1.2'') U1 M5 (n sdiv 2) = Inr U2"
    "add (junk stk ''Q1'') U2 M7 (n sdiv 2) = Inr Q1"
    "add (junk stk ''Q2'') M3 M5 (n sdiv 2) = Inr Q2"
    "add (junk stk ''Q3'') M2 M4 (n sdiv 2) = Inr Q3"
    "sub (junk stk ''Q4.1'') M1 M2 (n sdiv 2) = Inr U3"
    "add (junk stk ''Q4.2'') U3 M3 (n sdiv 2) = Inr U4"
    "add (junk stk ''Q4'') U4 M6 (n sdiv 2) = Inr Q4"
    "assemble (junk stk ''res'') Q1 Q2 Q3 Q4 n = Inr res"
  using assms
  apply (simp add: Let_def obind_eq_Some_Inr_iff call2_eq_Some_Inr_iff ebind_eq_Inr_iff)
  apply (elim exE conjE)
  apply (rule that; assumption)
  done

text \<open>
  The offsets of a result of the recursive branch are those that the local \<open>res\<close> held
  when the call was entered, and so are the cells outside rows and columns \<open>[0, n)\<close>.
\<close>

lemma strassen_rec_Inr:
  assumes "strassen_matrix_multiply sf stk depth a b n = Some (Inr res)" and "n \<noteq> 2"
  shows "\<exists>Q1 Q2 Q3 Q4. assemble (junk stk ''res'') Q1 Q2 Q3 Q4 n = Inr res"
    and "i res = i (junk stk ''res'')" "j res = j (junk stk ''res'')"
    and "\<not> (0 \<le> r \<and> r < n \<and> 0 \<le> c \<and> c < n) \<Longrightarrow> m res r c = m (junk stk ''res'') r c"
    and "n \<le> 16"
proof -
  from assms(1) obtain d where d: "depth = Suc d" by (auto dest: strassen_depth_Suc)
  from assms [unfolded d] obtain Q1 Q2 Q3 Q4 where
    q: "assemble (junk stk ''res'') Q1 Q2 Q3 Q4 n = Inr res"
    by (rule strassen_rec_unfold)
  from q show "\<exists>Q1 Q2 Q3 Q4. assemble (junk stk ''res'') Q1 Q2 Q3 Q4 n = Inr res" by blast
  from assemble_Inr(1,2) [OF q]
  show "i res = i (junk stk ''res'')" "j res = j (junk stk ''res'')" by simp_all
  show "m res r c = m (junk stk ''res'') r c" if "\<not> (0 \<le> r \<and> r < n \<and> 0 \<le> c \<and> c < n)"
    using assemble_Inr(3) [OF q that] .
  from assemble_in_grid [OF q] show "n \<le> 16" .
qed

text \<open>
  C10. The offsets of results: \<open>add\<close> and \<open>sub\<close> give their result the offsets of the
  first operand, and so does the base case of \<open>strassen_matrix_multiply\<close>. A result of
  the recursive case, for any \<open>n\<close> other than 2, is the local \<open>res\<close> after the four
  assembly loops. These loops write the cells of the quadrant results into rows and
  columns \<open>[0, n)\<close> whatever the offsets of the inputs and of the quadrant results are, and
  leave everything else of \<open>res\<close> as it was: both offsets and all cells outside these rows
  and columns are what the unassigned local held on the stack.
\<close>

theorem result_offsets:
  "(add m0 a b n = Inr res \<longrightarrow> i res = i a \<and> j res = j a)
   \<and> (sub m0 a b n = Inr res \<longrightarrow> i res = i a \<and> j res = j a)
   \<and> (strassen_matrix_multiply sf stk depth a b 2 = Some (Inr res) \<longrightarrow> i res = i a \<and> j res = j a)
   \<and> (n \<noteq> 2 \<and> strassen_matrix_multiply sf stk depth a b n = Some (Inr res) \<longrightarrow>
        (\<exists>Q1 Q2 Q3 Q4. assemble (junk stk ''res'') Q1 Q2 Q3 Q4 n = Inr res)
        \<and> i res = i (junk stk ''res'') \<and> j res = j (junk stk ''res'')
        \<and> (\<forall>r c. \<not> (0 \<le> r \<and> r < n \<and> 0 \<le> c \<and> c < n) \<longrightarrow> m res r c = m (junk stk ''res'') r c))
   \<and> (assemble res0 Q1 Q2 Q3 Q4 n = Inr res \<longrightarrow>
        i res = i res0 \<and> j res = j res0
        \<and> (\<forall>r c. \<not> (0 \<le> r \<and> r < n \<and> 0 \<le> c \<and> c < n) \<longrightarrow> m res r c = m res0 r c)
        \<and> (\<forall>r c. 0 \<le> r \<and> r < n sdiv 2 \<and> 0 \<le> c \<and> c < n sdiv 2
              \<longrightarrow> elem Q1 r c = Inr (m res r c))
        \<and> (\<forall>r c. 0 \<le> r \<and> r < n sdiv 2 \<and> n sdiv 2 \<le> c \<and> c < n
              \<longrightarrow> elem Q2 r (c - n sdiv 2) = Inr (m res r c))
        \<and> (\<forall>r c. n sdiv 2 \<le> r \<and> r < n \<and> 0 \<le> c \<and> c < n sdiv 2
              \<longrightarrow> elem Q3 (r - n sdiv 2) c = Inr (m res r c))
        \<and> (\<forall>r c. n sdiv 2 \<le> r \<and> r < n \<and> n sdiv 2 \<le> c \<and> c < n
              \<longrightarrow> elem Q4 (r - n sdiv 2) (c - n sdiv 2) = Inr (m res r c)))"
proof (intro conjI impI)
  assume "add m0 a b n = Inr res"
  from add_Inr(1,2) [OF this] show "i res = i a" "j res = j a" .
next
  assume "sub m0 a b n = Inr res"
  from sub_Inr(1,2) [OF this] show "i res = i a" "j res = j a" .
next
  assume "strassen_matrix_multiply sf stk depth a b 2 = Some (Inr res)"
  from strassen_2x2_Inr(1,2) [OF strassen_base_Inr [OF this]]
  show "i res = i a" "j res = j a" .
next
  assume h: "n \<noteq> 2 \<and> strassen_matrix_multiply sf stk depth a b n = Some (Inr res)"
  then have s: "strassen_matrix_multiply sf stk depth a b n = Some (Inr res)" and n: "n \<noteq> 2"
    by simp_all
  from strassen_rec_Inr(1-3) [OF s n]
  show "\<exists>Q1 Q2 Q3 Q4. assemble (junk stk ''res'') Q1 Q2 Q3 Q4 n = Inr res"
    "i res = i (junk stk ''res'')" "j res = j (junk stk ''res'')" .
  from strassen_rec_Inr(4) [OF s n]
  show "\<forall>r c. \<not> (0 \<le> r \<and> r < n \<and> 0 \<le> c \<and> c < n) \<longrightarrow> m res r c = m (junk stk ''res'') r c"
    by blast
next
  assume q: "assemble res0 Q1 Q2 Q3 Q4 n = Inr res"
  from assemble_Inr(1,2) [OF q] show "i res = i res0" "j res = j res0" .
  from assemble_Inr(3) [OF q]
  show "\<forall>r c. \<not> (0 \<le> r \<and> r < n \<and> 0 \<le> c \<and> c < n) \<longrightarrow> m res r c = m res0 r c" by blast
  from assemble_cells(1) [OF q]
  show "\<forall>r c. 0 \<le> r \<and> r < n sdiv 2 \<and> 0 \<le> c \<and> c < n sdiv 2 \<longrightarrow> elem Q1 r c = Inr (m res r c)"
    by blast
  from assemble_cells(2) [OF q]
  show "\<forall>r c. 0 \<le> r \<and> r < n sdiv 2 \<and> n sdiv 2 \<le> c \<and> c < n
          \<longrightarrow> elem Q2 r (c - n sdiv 2) = Inr (m res r c)" by blast
  from assemble_cells(3) [OF q]
  show "\<forall>r c. n sdiv 2 \<le> r \<and> r < n \<and> 0 \<le> c \<and> c < n sdiv 2
          \<longrightarrow> elem Q3 (r - n sdiv 2) c = Inr (m res r c)" by blast
  from assemble_cells(4) [OF q]
  show "\<forall>r c. n sdiv 2 \<le> r \<and> r < n \<and> n sdiv 2 \<le> c \<and> c < n
          \<longrightarrow> elem Q4 (r - n sdiv 2) (c - n sdiv 2) = Inr (m res r c)" by blast
qed

section \<open>Runs on views of zeros\<close>

lemma check_overflow_zero [simp]: "check_overflow 0 0 True False = Inr ()"
  by (simp add: check_overflow_def)

lemma check_overflow_zero_mult [simp]: "check_overflow 0 0 False True = Inr ()"
  by (simp add: check_overflow_def)

lemma small_checks:
  assumes "v = 0 \<or> v = 1"
  shows "check_overflow v v True False = Inr ()"
    "check_overflow (v + v) (- v) True False = Inr ()"
    "check_overflow (v + v - v) v True False = Inr ()"
    "check_overflow v (- v) True False = Inr ()"
    "check_overflow (v - v) v True False = Inr ()"
    "check_overflow (v - v + v) v True False = Inr ()"
  using assms by (auto simp: check_overflow_def word_sless_alt)

lemma zero_base:
  assumes a: "view_is a 2 (\<lambda>r c. 0)" and b: "view_is b 2 (\<lambda>r c. 0)"
  shows "\<exists>c. strassen_2x2 c0 a b = Inr c \<and> view_is c 2 (\<lambda>r c. 0)"
proof -
  have e: "elem a 0 0 = Inr 0" "elem a 0 1 = Inr 0" "elem a 1 0 = Inr 0" "elem a 1 1 = Inr 0"
    "elem b 0 0 = Inr 0" "elem b 0 1 = Inr 0" "elem b 1 0 = Inr 0" "elem b 1 1 = Inr 0"
    using a b by (simp_all add: view_is_def)
  have p: "(0 :: cint) = (0 + 0) * (0 + 0)" "(0 :: cint) = (0 + 0) * 0" "(0 :: cint) = 0 * (0 - 0)"
    "(0 :: cint) = 0 * (0 - 0)" "(0 :: cint) = (0 + 0) * 0" "(0 :: cint) = (0 - 0) * (0 + 0)"
    "(0 :: cint) = (0 - 0) * (0 + 0)"
    by simp_all
  have oc: "operand_checks a b = Inr ()"
    by (simp add: operand_checks_def chk_def eplus_def eminus_def eneg_def e)
  have rc: "result_checks 0 0 0 0 0 0 0 = Inr ()"
    by (simp add: result_checks_def)
  from strassen_2x2_unfold [OF e p, of c0] obtain c where c: "strassen_2x2 c0 a b = Inr c"
    by (simp add: oc rc)
  from base_view_is [OF c a b] have "view_is c 2 (\<lambda>r c. 0)" by simp
  with c show ?thesis by blast
qed

text \<open>
  One step of the recursion on views of zeros, when every recursive call on views of
  zeros returns a view that reads \<open>W\<close> with values \<open>0\<close> or \<open>1\<close>: all checks pass and the
  cell \<open>(r, c)\<close> of the result holds twice the value of \<open>W\<close> at its place in the quadrant.
\<close>

lemma strassen_step:
  assumes n: "n = 2 * h" "2 \<le> h" "n \<le> 16"
    and a: "view_is a n (\<lambda>r c. 0)" and b: "view_is b n (\<lambda>r c. 0)"
    and rec: "\<And>x u v. view_is u h (\<lambda>r c. 0) \<Longrightarrow> view_is v h (\<lambda>r c. 0)
        \<Longrightarrow> \<exists>M. strassen_matrix_multiply sf (frame stk x) d u v h = Some (Inr M) \<and> view_is M h W"
    and W: "\<And>r c. 0 \<le> r \<Longrightarrow> r < h \<Longrightarrow> 0 \<le> c \<Longrightarrow> c < h \<Longrightarrow> W r c = 0 \<or> W r c = 1"
  shows "\<exists>res. strassen_matrix_multiply sf stk (Suc d) a b n = Some (Inr res)
     \<and> (\<forall>r c. 0 \<le> r \<and> r < n \<and> 0 \<le> c \<and> c < n
          \<longrightarrow> m res r c = 2 * W (if r < h then r else r - h) (if c < h then c else c - h))"
proof -
  have h: "n sdiv 2 = h" using n by (simp add: signed_divide_int_def sgn_if)
  have n2: "n \<noteq> 2" using n by simp
  have hh: "0 \<le> h" "h + h \<le> n" "0 + h \<le> n" using n by simp_all
  obtain A00 where A00: "quad (junk stk ''A00'') a 0 0 h = Inr A00" "view_is A00 h (\<lambda>r c. 0)"
    using quad_view_run [OF a, of 0 0 h] hh by auto
  obtain A01 where A01: "quad (junk stk ''A01'') a 0 h h = Inr A01" "view_is A01 h (\<lambda>r c. 0)"
    using quad_view_run [OF a, of 0 h h] hh by auto
  obtain A10 where A10: "quad (junk stk ''A10'') a h 0 h = Inr A10" "view_is A10 h (\<lambda>r c. 0)"
    using quad_view_run [OF a, of h 0 h] hh by auto
  obtain A11 where A11: "quad (junk stk ''A11'') a h h h = Inr A11" "view_is A11 h (\<lambda>r c. 0)"
    using quad_view_run [OF a, of h h h] hh by auto
  obtain B00 where B00: "quad (junk stk ''B00'') b 0 0 h = Inr B00" "view_is B00 h (\<lambda>r c. 0)"
    using quad_view_run [OF b, of 0 0 h] hh by auto
  obtain B01 where B01: "quad (junk stk ''B01'') b 0 h h = Inr B01" "view_is B01 h (\<lambda>r c. 0)"
    using quad_view_run [OF b, of 0 h h] hh by auto
  obtain B10 where B10: "quad (junk stk ''B10'') b h 0 h = Inr B10" "view_is B10 h (\<lambda>r c. 0)"
    using quad_view_run [OF b, of h 0 h] hh by auto
  obtain B11 where B11: "quad (junk stk ''B11'') b h h h = Inr B11" "view_is B11 h (\<lambda>r c. 0)"
    using quad_view_run [OF b, of h h h] hh by auto
  have zadd: "\<exists>res. add g x y h = Inr res \<and> view_is res h (\<lambda>r c. 0)"
    if "view_is x h (\<lambda>r c. 0)" "view_is y h (\<lambda>r c. 0)" for g x y
    using add_view_run [OF that, of g] by auto
  have zsub: "\<exists>res. sub g x y h = Inr res \<and> view_is res h (\<lambda>r c. 0)"
    if "view_is x h (\<lambda>r c. 0)" "view_is y h (\<lambda>r c. 0)" for g x y
    using sub_view_run [OF that, of g] by auto
  obtain S1 where S1: "add (junk stk ''M1.a'') A00 A11 h = Inr S1" "view_is S1 h (\<lambda>r c. 0)"
    using zadd [OF A00(2) A11(2)] by blast
  obtain T1 where T1: "add (junk stk ''M1.b'') B00 B11 h = Inr T1" "view_is T1 h (\<lambda>r c. 0)"
    using zadd [OF B00(2) B11(2)] by blast
  obtain M1 where M1: "strassen_matrix_multiply sf (frame stk ''M1'') d S1 T1 h = Some (Inr M1)"
    "view_is M1 h W" using rec [OF S1(2) T1(2)] by blast
  obtain S2 where S2: "add (junk stk ''M2.a'') A10 A11 h = Inr S2" "view_is S2 h (\<lambda>r c. 0)"
    using zadd [OF A10(2) A11(2)] by blast
  obtain M2 where M2: "strassen_matrix_multiply sf (frame stk ''M2'') d S2 B00 h = Some (Inr M2)"
    "view_is M2 h W" using rec [OF S2(2) B00(2)] by blast
  obtain T3 where T3: "sub (junk stk ''M3.b'') B01 B11 h = Inr T3" "view_is T3 h (\<lambda>r c. 0)"
    using zsub [OF B01(2) B11(2)] by blast
  obtain M3 where M3: "strassen_matrix_multiply sf (frame stk ''M3'') d A00 T3 h = Some (Inr M3)"
    "view_is M3 h W" using rec [OF A00(2) T3(2)] by blast
  obtain T4 where T4: "sub (junk stk ''M4.b'') B10 B00 h = Inr T4" "view_is T4 h (\<lambda>r c. 0)"
    using zsub [OF B10(2) B00(2)] by blast
  obtain M4 where M4: "strassen_matrix_multiply sf (frame stk ''M4'') d A11 T4 h = Some (Inr M4)"
    "view_is M4 h W" using rec [OF A11(2) T4(2)] by blast
  obtain S5 where S5: "add (junk stk ''M5.a'') A00 A01 h = Inr S5" "view_is S5 h (\<lambda>r c. 0)"
    using zadd [OF A00(2) A01(2)] by blast
  obtain M5 where M5: "strassen_matrix_multiply sf (frame stk ''M5'') d S5 B11 h = Some (Inr M5)"
    "view_is M5 h W" using rec [OF S5(2) B11(2)] by blast
  obtain S6 where S6: "sub (junk stk ''M6.a'') A10 A00 h = Inr S6" "view_is S6 h (\<lambda>r c. 0)"
    using zsub [OF A10(2) A00(2)] by blast
  obtain T6 where T6: "add (junk stk ''M6.b'') B00 B01 h = Inr T6" "view_is T6 h (\<lambda>r c. 0)"
    using zadd [OF B00(2) B01(2)] by blast
  obtain M6 where M6: "strassen_matrix_multiply sf (frame stk ''M6'') d S6 T6 h = Some (Inr M6)"
    "view_is M6 h W" using rec [OF S6(2) T6(2)] by blast
  obtain S7 where S7: "sub (junk stk ''M7.a'') A01 A11 h = Inr S7" "view_is S7 h (\<lambda>r c. 0)"
    using zsub [OF A01(2) A11(2)] by blast
  obtain T7 where T7: "add (junk stk ''M7.b'') B10 B11 h = Inr T7" "view_is T7 h (\<lambda>r c. 0)"
    using zadd [OF B10(2) B11(2)] by blast
  obtain M7 where M7: "strassen_matrix_multiply sf (frame stk ''M7'') d S7 T7 h = Some (Inr M7)"
    "view_is M7 h W" using rec [OF S7(2) T7(2)] by blast
  obtain U1 where U1: "add (junk stk ''Q1.1'') M1 M4 h = Inr U1"
    "view_is U1 h (\<lambda>r c. W r c + W r c)"
    using add_view_run [OF M1(2) M4(2), of "junk stk ''Q1.1''"] small_checks(1) [OF W] by blast
  obtain U2 where U2: "sub (junk stk ''Q1.2'') U1 M5 h = Inr U2"
    "view_is U2 h (\<lambda>r c. W r c + W r c - W r c)"
    using sub_view_run [OF U1(2) M5(2), of "junk stk ''Q1.2''"] small_checks(2) [OF W] by blast
  obtain Q1 where Q1: "add (junk stk ''Q1'') U2 M7 h = Inr Q1"
    "view_is Q1 h (\<lambda>r c. W r c + W r c - W r c + W r c)"
    using add_view_run [OF U2(2) M7(2), of "junk stk ''Q1''"] small_checks(3) [OF W] by blast
  obtain Q2 where Q2: "add (junk stk ''Q2'') M3 M5 h = Inr Q2"
    "view_is Q2 h (\<lambda>r c. W r c + W r c)"
    using add_view_run [OF M3(2) M5(2), of "junk stk ''Q2''"] small_checks(1) [OF W] by blast
  obtain Q3 where Q3: "add (junk stk ''Q3'') M2 M4 h = Inr Q3"
    "view_is Q3 h (\<lambda>r c. W r c + W r c)"
    using add_view_run [OF M2(2) M4(2), of "junk stk ''Q3''"] small_checks(1) [OF W] by blast
  obtain U3 where U3: "sub (junk stk ''Q4.1'') M1 M2 h = Inr U3"
    "view_is U3 h (\<lambda>r c. W r c - W r c)"
    using sub_view_run [OF M1(2) M2(2), of "junk stk ''Q4.1''"] small_checks(4) [OF W] by blast
  obtain U4 where U4: "add (junk stk ''Q4.2'') U3 M3 h = Inr U4"
    "view_is U4 h (\<lambda>r c. W r c - W r c + W r c)"
    using add_view_run [OF U3(2) M3(2), of "junk stk ''Q4.2''"] small_checks(5) [OF W] by blast
  obtain Q4 where Q4: "add (junk stk ''Q4'') U4 M6 h = Inr Q4"
    "view_is Q4 h (\<lambda>r c. W r c - W r c + W r c + W r c)"
    using add_view_run [OF U4(2) M6(2), of "junk stk ''Q4''"] small_checks(6) [OF W] by blast
  have "\<exists>res. assemble (junk stk ''res'') Q1 Q2 Q3 Q4 n = Inr res"
  proof (rule assemble_succeeds [where h = h])
    fix r c :: int assume rc: "0 \<le> r" "r < h" "0 \<le> c" "c < h"
    from view_isD [OF Q1(2) rc] view_isD [OF Q2(2) rc] view_isD [OF Q3(2) rc]
      view_isD [OF Q4(2) rc]
    show "(\<exists>v. elem Q1 r c = Inr v) \<and> (\<exists>v. elem Q2 r c = Inr v)
      \<and> (\<exists>v. elem Q3 r c = Inr v) \<and> (\<exists>v. elem Q4 r c = Inr v)" by blast
  qed (use n in simp_all)
  then obtain res where res: "assemble (junk stk ''res'') Q1 Q2 Q3 Q4 n = Inr res" ..
  have run: "strassen_matrix_multiply sf stk (Suc d) a b n = Some (Inr res)"
    unfolding strassen_matrix_multiply.simps(2) [of sf stk d a b n] Let_def h
    using n2
    by (simp only: if_False A00 A01 A10 A11 B00 B01 B10 B11 S1 T1 M1 S2 M2 T3 M3 T4 M4 S5 M5
          S6 T6 M6 S7 T7 M7 U1 U2 Q1 Q2 Q3 U3 U4 Q4 res obind.simps ebind.simps call2_Inr)
  note cells = assemble_cells [OF res, unfolded h]
  have "m res r c = 2 * W (if r < h then r else r - h) (if c < h then c else c - h)"
    if rc: "0 \<le> r \<and> r < n \<and> 0 \<le> c \<and> c < n" for r c
  proof -
    consider (q1) "r < h" "c < h" | (q2) "r < h" "h \<le> c" | (q3) "h \<le> r" "c < h"
      | (q4) "h \<le> r" "h \<le> c"
      by linarith
    then show ?thesis
    proof cases
      case q1
      with rc cells(1) [of r c] view_isD [OF Q1(2), of r c] show ?thesis by simp
    next
      case q2
      with rc n cells(2) [of r c] view_isD [OF Q2(2), of r "c - h"] show ?thesis by simp
    next
      case q3
      with rc n cells(3) [of r c] view_isD [OF Q3(2), of "r - h" c] show ?thesis by simp
    next
      case q4
      with rc n cells(4) [of r c] view_isD [OF Q4(2), of "r - h" "c - h"] show ?thesis by simp
    qed
  qed
  with run show ?thesis by blast
qed

lemma clean_below_frame:
  assumes "clean_below stk"
  shows "clean_below (frame stk x)"
    and "i (junk (frame stk x) ''res'') = 0" "j (junk (frame stk x) ''res'') = 0"
proof -
  show "clean_below (frame stk x)"
    unfolding clean_below_def frame_def
  proof (intro allI)
    fix y path
    from assms have "i (stk (x # (y # path) @ [''res''])) = 0 \<and> j (stk (x # (y # path) @ [''res''])) = 0"
      unfolding clean_below_def by blast
    then show "i (stk (x # y # path @ [''res''])) = 0 \<and> j (stk (x # y # path @ [''res''])) = 0"
      by simp
  qed
  from assms have "i (stk (x # [] @ [''res''])) = 0 \<and> j (stk (x # [] @ [''res''])) = 0"
    unfolding clean_below_def by blast
  then show "i (junk (frame stk x) ''res'') = 0" "j (junk (frame stk x) ''res'') = 0"
    by (simp_all add: junk_def frame_def)
qed

text \<open>
  On views of zeros of size \<open>2 * 2 ^ k\<close> the call returns, at any depth bound above \<open>k\<close>,
  provided that for sizes from 8 on the stack is clean below the outermost call. For size
  2 the result is a view of zeros; for larger sizes its rows and columns \<open>[0, n)\<close> hold
  zeros.
\<close>

lemma zero_run:
  assumes "2 \<le> k \<Longrightarrow> clean_below stk"
    and "n = 2 * 2 ^ k" "n \<le> 16"
    and "view_is a n (\<lambda>r c. 0)" "view_is b n (\<lambda>r c. 0)"
  shows "\<exists>res. strassen_matrix_multiply sf stk (Suc (k + e)) a b n = Some (Inr res)
     \<and> (k = 0 \<longrightarrow> view_is res n (\<lambda>r c. 0))
     \<and> (0 < k \<longrightarrow> (\<forall>r c. 0 \<le> r \<and> r < n \<and> 0 \<le> c \<and> c < n \<longrightarrow> m res r c = 0))"
  using assms
proof (induction k arbitrary: stk n a b)
  case 0
  then have n: "n = 2" by simp
  from zero_base [of a b "junk stk ''c''"] 0 n show ?case by auto
next
  case (Suc k)
  define h :: int where "h = 2 * 2 ^ k"
  have n: "n = 2 * h" "2 \<le> h" "n \<le> 16" using Suc.prems by (simp_all add: h_def)
  have h16: "h \<le> 16" using n by simp
  have rec: "\<exists>M. strassen_matrix_multiply sf (frame stk x) (Suc (k + e)) u v h = Some (Inr M)
      \<and> view_is M h (\<lambda>r c. 0)"
    if uv: "view_is u h (\<lambda>r c. 0)" "view_is v h (\<lambda>r c. 0)" for x u v
  proof -
    have cl: "clean_below (frame stk x)" if "2 \<le> k"
      using that Suc.prems(1) clean_below_frame(1) by simp
    from Suc.IH [OF cl h_def h16 uv] obtain M where
      M: "strassen_matrix_multiply sf (frame stk x) (Suc (k + e)) u v h = Some (Inr M)"
      and M0: "k = 0 \<longrightarrow> view_is M h (\<lambda>r c. 0)"
      and Mk: "0 < k \<longrightarrow> (\<forall>r c. 0 \<le> r \<and> r < h \<and> 0 \<le> c \<and> c < h \<longrightarrow> m M r c = 0)"
      by blast
    have "view_is M h (\<lambda>r c. 0)"
    proof (cases "k = 0")
      case True
      with M0 show ?thesis by simp
    next
      case False
      then have k: "0 < k" by simp
      then have "(2 :: int) ^ 1 \<le> 2 ^ k" by (intro power_increasing) simp_all
      then have "h \<noteq> 2" by (simp add: h_def)
      from strassen_rec_Inr(2,3) [OF M this]
      have o: "i M = i (junk (frame stk x) ''res'')" "j M = j (junk (frame stk x) ''res'')" .
      from k have "2 \<le> Suc k" by simp
      from clean_below_frame(2,3) [OF Suc.prems(1) [OF this], of x] o
      have o0: "i M = 0" "j M = 0" by simp_all
      show ?thesis
        unfolding view_is_def
        using Mk k h16 o0 by (simp add: elem_eq_Inr_iff in_bounds_def NUM_ELEMS_def)
    qed
    with M show ?thesis by blast
  qed
  from strassen_step [where W = "\<lambda>r c. 0", OF n Suc.prems(4,5) rec]
  show ?case by auto
qed

section \<open>The standard multiplication\<close>

lemma wr_at_wr_at [simp]: "wr_at (wr_at s r c v) r c w = wr_at s r c w"
  by (simp add: wr_at_def)

lemma load_wr_at_same: "in_bounds r c \<Longrightarrow> load (wr_at s r c v) r c = Inr v"
  by (simp add: load_def)

text \<open>The loop over \<open>k\<close> adds the products to the cell, with wrap-around and no check.\<close>

lemma accumulate_loop:
  assumes b: "in_bounds r c"
    and rd: "\<And>k. k \<in> set ks \<Longrightarrow> in_bounds r k \<and> in_bounds k c"
  shows "for_each ks (\<lambda>k s'.
            ebind (load s' r c) (\<lambda>acc. ebind (load m1 r k) (\<lambda>x. ebind (load m2 k c) (\<lambda>y.
            store s' r c (acc + x * y))))) (wr_at s r c v)
         = Inr (wr_at s r c (v + sum_list (map (\<lambda>k. m m1 r k * m m2 k c) ks)))"
  using rd
proof (induction ks arbitrary: v)
  case Nil
  show ?case by simp
next
  case (Cons k ks)
  have k: "load m1 r k = Inr (m m1 r k)" "load m2 k c = Inr (m m2 k c)"
    using Cons.prems [of k] by (simp_all add: load_def)
  have "for_each ks (\<lambda>k s'.
            ebind (load s' r c) (\<lambda>acc. ebind (load m1 r k) (\<lambda>x. ebind (load m2 k c) (\<lambda>y.
            store s' r c (acc + x * y))))) (wr_at s r c (v + m m1 r k * m m2 k c))
         = Inr (wr_at s r c (v + m m1 r k * m m2 k c
                  + sum_list (map (\<lambda>k. m m1 r k * m m2 k c) ks)))"
    by (rule Cons.IH) (use Cons.prems in simp)
  then show ?case
    using b by (simp add: load_wr_at_same k store_def add.assoc)
qed

lemma naive_cell:
  assumes b: "in_bounds r c"
    and rd: "\<And>k. 0 \<le> k \<Longrightarrow> k < n \<Longrightarrow> in_bounds r k \<and> in_bounds k c"
  shows "ebind (store s r c 0) (for_each [0..n - 1] (\<lambda>k s'.
            ebind (load s' r c) (\<lambda>acc. ebind (load m1 r k) (\<lambda>x. ebind (load m2 k c) (\<lambda>y.
            store s' r c (acc + x * y))))))
         = ebind (Inr (dot (m m1) (m m2) n r c)) (store s r c)"
proof -
  have "for_each [0..n - 1] (\<lambda>k s'.
            ebind (load s' r c) (\<lambda>acc. ebind (load m1 r k) (\<lambda>x. ebind (load m2 k c) (\<lambda>y.
            store s' r c (acc + x * y))))) (wr_at s r c 0)
         = Inr (wr_at s r c (0 + sum_list (map (\<lambda>k. m m1 r k * m m2 k c) [0..n - 1])))"
    by (rule accumulate_loop [OF b]) (use rd in simp)
  with b show ?thesis by (simp add: store_def dot_def)
qed

lemma multiply_naive_fill:
  assumes n: "n \<le> 16"
  shows "multiply_naive m1 m2 m3 n
     = fill (\<lambda>p. Inr (dot (m m1) (m m2) n (fst p) (snd p))) (\<lambda>p. p)
         (List.product [0..n - 1] [0..n - 1]) m3"
  unfolding multiply_naive_def for_each_product fill_def
proof (rule for_each_cong_inv [where I = "\<lambda>_. True"])
  fix p :: "int \<times> int" and t :: matrix
  assume "p \<in> set (List.product [0..n - 1] [0..n - 1])"
  then have p: "0 \<le> fst p" "fst p < n" "0 \<le> snd p" "snd p < n"
    by (simp_all add: set_cells del: set_product)
  with n have b: "in_bounds (fst p) (snd p)" by (simp add: in_bounds_def NUM_ELEMS_def)
  have rd: "in_bounds (fst p) k \<and> in_bounds k (snd p)" if "0 \<le> k" "k < n" for k
    using that p n by (simp add: in_bounds_def NUM_ELEMS_def)
  show "ebind (store t (fst p) (snd p) 0)
         (for_each [0..n - 1] (\<lambda>k s'. ebind (load s' (fst p) (snd p)) (\<lambda>acc.
            ebind (load m1 (fst p) k) (\<lambda>x. ebind (load m2 k (snd p)) (\<lambda>y.
            store s' (fst p) (snd p) (acc + x * y))))))
      = ebind (Inr (dot (m m1) (m m2) n (fst p) (snd p))) (store t (fst (p)) (snd (p)))"
    by (rule naive_cell [OF b]) (rule rd)
qed simp_all

lemma multiply_naive_values:
  assumes "n \<le> 16"
  shows "\<exists>res. multiply_naive m1 m2 m3 n = Inr res
           \<and> (\<forall>r c. 0 \<le> r \<and> r < n \<and> 0 \<le> c \<and> c < n
                 \<longrightarrow> m res r c = sum_list (map (\<lambda>k. m m1 r k * m m2 k c) [0..n - 1]))"
proof -
  have eq: "multiply_naive m1 m2 m3 n
     = fill (\<lambda>p. Inr (dot (m m1) (m m2) n (fst p) (snd p))) (\<lambda>p. p)
         (List.product [0..n - 1] [0..n - 1]) m3"
    by (rule multiply_naive_fill) (use assms in simp_all)
  have "\<exists>t. fill (\<lambda>p. Inr (dot (m m1) (m m2) n (fst p) (snd p))) (\<lambda>p. p)
      (List.product [0..n - 1] [0..n - 1]) m3 = Inr t"
    by (rule fill_id_succeeds) (use assms(1) in \<open>simp add: in_bounds_def NUM_ELEMS_def\<close>)
  then obtain res where res: "fill (\<lambda>p. Inr (dot (m m1) (m m2) n (fst p) (snd p))) (\<lambda>p. p)
      (List.product [0..n - 1] [0..n - 1]) m3 = Inr res" ..
  have "m res r c = sum_list (map (\<lambda>k. m m1 r k * m m2 k c) [0..n - 1])"
    if "0 \<le> r \<and> r < n \<and> 0 \<le> c \<and> c < n" for r c
    using fill_id_cell [OF res, of r c] that by (simp add: dot_def)
  with res eq show ?thesis by simp
qed

lemma for_each_error:
  assumes "\<And>x t. x \<in> set xs \<Longrightarrow> body x t \<noteq> Inl e"
  shows "for_each xs body s \<noteq> Inl e"
  using assms
proof (induction xs arbitrary: s)
  case Nil
  show ?case by simp
next
  case (Cons x xs)
  have "for_each xs body t \<noteq> Inl e" for t
    by (rule Cons.IH) (use Cons.prems in simp)
  moreover have "body x s \<noteq> Inl e" using Cons.prems by simp
  ultimately show ?case by (simp add: ebind_eq_Inl_iff)
qed

lemma load_no_overflow: "load x r c \<noteq> Inl (ArithmeticOverflow k u v)"
  by (simp add: load_def)

lemma store_no_overflow: "store x r c w \<noteq> Inl (ArithmeticOverflow k u v)"
  by (simp add: store_def)

lemma multiply_naive_no_overflow:
  "multiply_naive m1 m2 m3 n \<noteq> Inl (ArithmeticOverflow k u v)"
  unfolding multiply_naive_def
  by (intro for_each_error)
     (simp add: ebind_eq_Inl_iff store_no_overflow load_no_overflow for_each_error)

text \<open>
  C8, amended. The standard multiplication has no overflow check: it never stops with
  \<open>ArithmeticOverflow\<close>, and for every \<open>n\<close> up to 16 it returns, in every cell, the sum of
  the products computed with wrap-around.
\<close>

theorem multiply_naive_wraps:
  "multiply_naive m1 m2 m3 n \<noteq> Inl (ArithmeticOverflow k u v)
   \<and> (n \<le> 16
      \<longrightarrow> (\<exists>res. multiply_naive m1 m2 m3 n = Inr res
           \<and> (\<forall>r c. 0 \<le> r \<and> r < n \<and> 0 \<le> c \<and> c < n
                 \<longrightarrow> m res r c = sum_list (map (\<lambda>k. m m1 r k * m m2 k c) [0..n - 1]))))"
  using multiply_naive_no_overflow [of m1 m2 m3 n k u v]
    multiply_naive_values [of n m1 m2 m3]
  by blast

theorem multiply_naive_wraps_witness:
  "\<exists>res. multiply_naive (input_matrix [[1, 2], [3, 4]]) (input_matrix [[5, 6], [7, 8]])
            (input_matrix []) 2 = Inr res
      \<and> m res 0 0 = 19 \<and> m res 0 1 = 22 \<and> m res 1 0 = 43 \<and> m res 1 1 = 50"
proof -
  let ?A = "input_matrix [[1, 2], [3, 4]]" and ?B = "input_matrix [[5, 6], [7, 8]]"
  have n: "(2 :: int) \<le> 16" by simp
  from multiply_naive_wraps [THEN conjunct2, rule_format, OF n, of ?A ?B "input_matrix []"]
  obtain res where res: "multiply_naive ?A ?B (input_matrix []) 2 = Inr res"
    and c: "\<And>r c. 0 \<le> r \<and> r < 2 \<and> 0 \<le> c \<and> c < 2
      \<Longrightarrow> m res r c = sum_list (map (\<lambda>k. m ?A r k * m ?B k c) [0..2 - 1])"
    by blast
  have v: "sum_list (map (\<lambda>k. m ?A 0 k * m ?B k 0) [0..2 - 1]) = 19"
    "sum_list (map (\<lambda>k. m ?A 0 k * m ?B k 1) [0..2 - 1]) = 22"
    "sum_list (map (\<lambda>k. m ?A 1 k * m ?B k 0) [0..2 - 1]) = 43"
    "sum_list (map (\<lambda>k. m ?A 1 k * m ?B k 1) [0..2 - 1]) = 50"
    by code_simp+
  from c [of 0 0] c [of 0 1] c [of 1 0] c [of 1 1] v res show ?thesis by simp
qed

text \<open>
  C8 as stated fails: the product of 65536 with itself is not representable, and the
  standard multiplication returns the wrapped cell instead of stopping.
\<close>

theorem multiply_naive_counterexample:
  "ebind (multiply_naive (input_matrix [[65536, 0], [0, 0]]) (input_matrix [[65536, 0], [0, 0]])
            (input_matrix []) 2) (\<lambda>res. load res 0 0) = Inr 0
   \<and> \<not> representable (sint (65536 :: cint) * sint (65536 :: cint))"
  by (rule conjI, code_simp, simp add: representable_def)

section \<open>Size 8: the result depends on the stack\<close>

lemma input_cell_zeros [simp]: "input_cell (replicate k (replicate l 0)) r c = 0"
  by (auto simp: input_cell_def)

lemma zero_input_view:
  assumes "0 \<le> i0" "0 \<le> j0" "i0 + h \<le> 16" "j0 + h \<le> 16"
  shows "view_is ((input_matrix (replicate k (replicate l 0)))\<lparr>i := i0, j := j0\<rparr>) h (\<lambda>r c. 0)"
  using assms by (simp add: view_is_def elem_eq_Inr_iff in_bounds_def NUM_ELEMS_def)

lemma zero_input_view0:
  "h \<le> 16 \<Longrightarrow> view_is (input_matrix (replicate k (replicate l 0))) h (\<lambda>r c. 0)"
  using zero_input_view [of 0 0 h k l] by (simp add: input_matrix_def)

lemma clean_below_zeroed: "clean_below zeroed_stack"
  by (simp add: clean_below_def zeroed_stack_def)

lemma clean_below_marked: "clean_below marked_stack"
  by (simp add: clean_below_def marked_stack_def)

lemma upto_0_7: "[0..7 :: int] = [0, 1, 2, 3, 4, 5, 6, 7]"
  by code_simp

text \<open>
  On a stack of ones, a call for size 4 on views of zeros returns the zeros in rows and
  columns \<open>[0, 4)\<close> of a struct whose offsets are \<open>(1, 1)\<close> and whose other cells hold
  ones. Read through its offsets, as \<open>add\<close> and \<open>sub\<close> do, this is not a view of zeros.
\<close>

lemma stale_run_4:
  assumes u: "view_is u 4 (\<lambda>r c. 0)" and v: "view_is v 4 (\<lambda>r c. 0)"
  shows "\<exists>M. strassen_matrix_multiply sf (frame stale_stack x) (Suc (Suc d)) u v 4 = Some (Inr M)
     \<and> view_is M 4 (\<lambda>r c. if r < 3 \<and> c < 3 then 0 else 1)"
proof -
  have n: "(4 :: int) = 2 * 2 ^ 1" "(4 :: int) \<le> 16" by simp_all
  have "2 \<le> (1 :: nat) \<Longrightarrow> clean_below (frame stale_stack x)" by simp
  from zero_run [OF this n u v, of sf d] obtain M where
    M: "strassen_matrix_multiply sf (frame stale_stack x) (Suc (Suc d)) u v 4 = Some (Inr M)"
    and c: "\<And>r c. 0 \<le> r \<and> r < 4 \<and> 0 \<le> c \<and> c < 4 \<Longrightarrow> m M r c = 0"
    by auto
  have n2: "(4 :: int) \<noteq> 2" by simp
  from strassen_rec_Inr(2,3) [OF M n2]
  have o: "i M = 1" "j M = 1" by (simp_all add: junk_def frame_def stale_stack_def)
  have out: "m M r c = 1" if "\<not> (0 \<le> r \<and> r < 4 \<and> 0 \<le> c \<and> c < 4)" for r c
    using strassen_rec_Inr(4) [OF M n2 that] by (simp add: junk_def frame_def stale_stack_def)
  have "elem M r c = Inr (if r < 3 \<and> c < 3 then 0 else 1)"
    if rc: "0 \<le> r \<and> r < 4 \<and> 0 \<le> c \<and> c < 4" for r c
  proof (cases "r < 3 \<and> c < 3")
    case True
    with rc c [of "1 + r" "1 + c"] o show ?thesis
      by (simp add: elem_eq_Inr_iff in_bounds_def NUM_ELEMS_def)
  next
    case False
    with rc out [of "1 + r" "1 + c"] o show ?thesis
      by (auto simp: elem_eq_Inr_iff in_bounds_def NUM_ELEMS_def)
  qed
  then have "view_is M 4 (\<lambda>r c. if r < 3 \<and> c < 3 then 0 else 1)"
    by (simp add: view_is_def)
  with M show ?thesis by blast
qed

text \<open>
  C1. For the 8 by 8 matrices of zeros the standard multiplication gives zeros. The
  call for size 8 adds and subtracts the seven results of the calls for size 4, reading
  them through their offsets, which no line of the recursive branch assigns:
  \<^item> on a stack of zeros these offsets are zero, and all 64 cells of the result are
    zero;
  \<^item> on a stack whose structs hold ones, the call also returns, with no failure
    reported, and the cell in row 3 and column 3 of the result holds 2; read through
    the offsets of the result, as \<open>main\<close> prints it, the cell \<open>(2, 2)\<close> is that same \<open>2\<close>.
\<close>

theorem strassen_8_depends_on_stack:
  "(\<exists>res. strassen_matrix_multiply sf zeroed_stack (Suc (Suc (Suc d)))
             (input_matrix (replicate 8 (replicate 8 0)))
             (input_matrix (replicate 8 (replicate 8 0))) 8 = Some (Inr res)
       \<and> concat (map (\<lambda>r. map (\<lambda>c. m res r c) [0..7]) [0..7]) = replicate 64 0
       \<and> elem res 2 2 = Inr 0)
   \<and> (\<exists>res. strassen_matrix_multiply sf stale_stack (Suc (Suc (Suc d)))
             (input_matrix (replicate 8 (replicate 8 0)))
             (input_matrix (replicate 8 (replicate 8 0))) 8 = Some (Inr res)
       \<and> m res 3 3 = 2 \<and> elem res 2 2 = Inr 2)
   \<and> ebind (multiply_naive (input_matrix (replicate 8 (replicate 8 0)))
              (input_matrix (replicate 8 (replicate 8 0))) m3 8) (\<lambda>p. load p 3 3) = Inr 0"
proof -
  let ?Z = "input_matrix (replicate 8 (replicate 8 0))"
  have z: "view_is ?Z 8 (\<lambda>r c. 0)" by (rule zero_input_view0) simp
  have n8: "(8 :: int) \<noteq> 2" by simp
  have 1: "\<exists>res. strassen_matrix_multiply sf zeroed_stack (Suc (Suc (Suc d))) ?Z ?Z 8
        = Some (Inr res)
       \<and> concat (map (\<lambda>r. map (\<lambda>c. m res r c) [0..7]) [0..7]) = replicate 64 0
       \<and> elem res 2 2 = Inr 0"
  proof -
    have n: "(8 :: int) = 2 * 2 ^ 2" "(8 :: int) \<le> 16" by simp_all
    from zero_run [OF clean_below_zeroed n z z, of sf d] obtain res where
      res: "strassen_matrix_multiply sf zeroed_stack (Suc (Suc (Suc d))) ?Z ?Z 8 = Some (Inr res)"
      and c: "\<And>r c. 0 \<le> r \<and> r < 8 \<and> 0 \<le> c \<and> c < 8 \<Longrightarrow> m res r c = 0"
      by (auto simp: numeral_2_eq_2)
    from strassen_rec_Inr(2,3) [OF res n8]
    have o: "i res = 0" "j res = 0" by (simp_all add: junk_def zeroed_stack_def)
    have "concat (map (\<lambda>r. map (\<lambda>c. m res r c) [0..7]) [0..7]) = replicate 64 0"
      by (simp add: upto_0_7 c numeral_eq_Suc)
    moreover have "elem res 2 2 = Inr 0"
      using c [of 2 2] o by (simp add: elem_eq_Inr_iff in_bounds_def NUM_ELEMS_def)
    ultimately show ?thesis using res by blast
  qed
  have 2: "\<exists>res. strassen_matrix_multiply sf stale_stack (Suc (Suc (Suc d))) ?Z ?Z 8
        = Some (Inr res) \<and> m res 3 3 = 2 \<and> elem res 2 2 = Inr 2"
  proof -
    have n: "(8 :: int) = 2 * 4" "(2 :: int) \<le> 4" "(8 :: int) \<le> 16" by simp_all
    have W: "(if r < 3 \<and> c < 3 then 0 else 1) = (0 :: cint)
        \<or> (if r < 3 \<and> c < 3 then 0 else 1) = (1 :: cint)" for r c :: int
      by simp
    from strassen_step [where W = "\<lambda>r c. if r < 3 \<and> c < 3 then 0 else 1"
        and stk = stale_stack and sf = sf and d = "Suc (Suc d)", OF n z z stale_run_4 W]
    obtain res where
      res: "strassen_matrix_multiply sf stale_stack (Suc (Suc (Suc d))) ?Z ?Z 8 = Some (Inr res)"
      and c: "\<And>r c. 0 \<le> r \<and> r < 8 \<and> 0 \<le> c \<and> c < 8 \<Longrightarrow> m res r c
          = 2 * (if (if r < 4 then r else r - 4) < 3 \<and> (if c < 4 then c else c - 4) < 3
                 then 0 else 1)"
      by blast
    from strassen_rec_Inr(2,3) [OF res n8]
    have o: "i res = 1" "j res = 1" by (simp_all add: junk_def stale_stack_def)
    from c [of 3 3] have c33: "m res 3 3 = 2" by simp
    then have "elem res 2 2 = Inr 2"
      using o by (simp add: elem_eq_Inr_iff in_bounds_def NUM_ELEMS_def)
    with res c33 show ?thesis by blast
  qed
  have 3: "ebind (multiply_naive ?Z ?Z m3 8) (\<lambda>p. load p 3 3) = Inr 0"
  proof -
    have "(8 :: int) \<le> 16" by simp
    from multiply_naive_values [OF this, of ?Z ?Z m3] obtain p where
      p: "multiply_naive ?Z ?Z m3 8 = Inr p"
      and c: "\<And>r c. 0 \<le> r \<and> r < 8 \<and> 0 \<le> c \<and> c < 8
          \<Longrightarrow> m p r c = sum_list (map (\<lambda>k. m ?Z r k * m ?Z k c) [0..8 - 1])"
      by blast
    from c [of 3 3] have "m p 3 3 = 0" by simp
    with p show ?thesis by (simp add: load_def in_bounds_def NUM_ELEMS_def)
  qed
  from 1 2 3 show ?thesis by blast
qed

text \<open>
  The offsets of results on an instance: the first input lies at the offsets \<open>(3, 5)\<close>,
  and the local \<open>res\<close> of the call for size 8 starts with the offsets \<open>(11, 13)\<close> and
  sevens in its cells.
\<close>

theorem result_offsets_witness:
  "(\<exists>res. add (junk stale_stack ''M1.a'')
              ((input_matrix (replicate 8 (replicate 8 0)))\<lparr>i := 3, j := 5\<rparr>)
              (input_matrix (replicate 8 (replicate 8 0))) 4 = Inr res
      \<and> i res = 3 \<and> j res = 5)
   \<and> (\<exists>res. sub (junk stale_stack ''M3.b'')
              ((input_matrix (replicate 8 (replicate 8 0)))\<lparr>i := 3, j := 5\<rparr>)
              (input_matrix (replicate 8 (replicate 8 0))) 4 = Inr res
      \<and> i res = 3 \<and> j res = 5)
   \<and> (\<exists>res. strassen_matrix_multiply left_to_right marked_stack 1
              ((input_matrix (replicate 8 (replicate 8 0)))\<lparr>i := 3, j := 5\<rparr>)
              (input_matrix (replicate 8 (replicate 8 0))) 2 = Some (Inr res)
      \<and> i res = 3 \<and> j res = 5)
   \<and> (\<exists>res Q1 Q2 Q3 Q4. strassen_matrix_multiply left_to_right marked_stack 3
              ((input_matrix (replicate 8 (replicate 8 0)))\<lparr>i := 3, j := 5\<rparr>)
              (input_matrix (replicate 8 (replicate 8 0))) 8 = Some (Inr res)
      \<and> assemble (junk marked_stack ''res'') Q1 Q2 Q3 Q4 8 = Inr res
      \<and> i res = 11 \<and> j res = 13 \<and> m res 9 9 = 7
      \<and> elem Q4 3 3 = Inr (m res 7 7) \<and> m res 7 7 = 0)"
proof -
  let ?A = "(input_matrix (replicate 8 (replicate 8 0)))\<lparr>i := 3, j := 5\<rparr>"
  let ?B = "input_matrix (replicate 8 (replicate 8 0))"
  note T1 = result_offsets [THEN conjunct1, rule_format]
  note T2 = result_offsets [THEN conjunct2, THEN conjunct1, rule_format]
  note T3 = result_offsets [THEN conjunct2, THEN conjunct2, THEN conjunct1, rule_format]
  note T4 = result_offsets [THEN conjunct2, THEN conjunct2, THEN conjunct2, THEN conjunct1,
      rule_format]
  note T5 = result_offsets [THEN conjunct2, THEN conjunct2, THEN conjunct2, THEN conjunct2,
      rule_format]
  have a8: "view_is ?A 8 (\<lambda>r c. 0)" by (rule zero_input_view) simp_all
  have b8: "view_is ?B 8 (\<lambda>r c. 0)" by (rule zero_input_view0) simp
  have a4: "view_is ?A 4 (\<lambda>r c. 0)" by (rule zero_input_view) simp_all
  have b4: "view_is ?B 4 (\<lambda>r c. 0)" by (rule zero_input_view0) simp
  have a2: "view_is ?A 2 (\<lambda>r c. 0)" by (rule zero_input_view) simp_all
  have b2: "view_is ?B 2 (\<lambda>r c. 0)" by (rule zero_input_view0) simp
  from add_view_run [OF a4 b4, of "junk stale_stack ''M1.a''"] obtain r1 where
    r1: "add (junk stale_stack ''M1.a'') ?A ?B 4 = Inr r1" by auto
  from sub_view_run [OF a4 b4, of "junk stale_stack ''M3.b''"] obtain r2 where
    r2: "sub (junk stale_stack ''M3.b'') ?A ?B 4 = Inr r2" by auto
  from zero_base [OF a2 b2, of "junk marked_stack ''c''"] obtain r3 where
    r3: "strassen_matrix_multiply left_to_right marked_stack 1 ?A ?B 2 = Some (Inr r3)"
    by auto
  have n: "(8 :: int) = 2 * 2 ^ 2" "(8 :: int) \<le> 16" by simp_all
  from zero_run [OF clean_below_marked n a8 b8, of left_to_right 0] obtain r4 where
    r4: "strassen_matrix_multiply left_to_right marked_stack 3 ?A ?B 8 = Some (Inr r4)"
    and c4: "\<And>r c. 0 \<le> r \<and> r < 8 \<and> 0 \<le> c \<and> c < 8 \<Longrightarrow> m r4 r c = 0"
    by (auto simp: numeral_3_eq_3 numeral_2_eq_2)
  have n8: "(8 :: int) \<noteq> 2" by simp
  note c = T4 [of 8 left_to_right marked_stack 3 ?A ?B r4, OF conjI [OF n8 r4]]
  from c obtain Q1 Q2 Q3 Q4 where
    q: "assemble (junk marked_stack ''res'') Q1 Q2 Q3 Q4 8 = Inr r4" by blast
  from c have o4: "i r4 = 11" "j r4 = 13" by (simp_all add: junk_def marked_stack_def)
  from c have "\<not> (0 \<le> (9 :: int) \<and> (9 :: int) < 8 \<and> 0 \<le> (9 :: int) \<and> (9 :: int) < 8)
      \<longrightarrow> m r4 9 9 = m (junk marked_stack ''res'') 9 9"
    by blast
  then have c99: "m r4 9 9 = 7" by (simp add: junk_def marked_stack_def)
  note d = T5 [OF q]
  from d have "8 sdiv 2 \<le> (7 :: int) \<and> (7 :: int) < 8 \<and> 8 sdiv 2 \<le> (7 :: int) \<and> (7 :: int) < 8
      \<longrightarrow> elem Q4 (7 - 8 sdiv 2) (7 - 8 sdiv 2) = Inr (m r4 7 7)"
    by blast
  then have e: "elem Q4 3 3 = Inr (m r4 7 7)" by simp
  from c4 [of 7 7] have c77: "m r4 7 7 = 0" by simp
  from T1 [OF r1] T2 [OF r2] T3 [OF r3] r1 r2 r3 r4 q o4 c99 e c77 show ?thesis
    by (auto simp del: replicate.simps replicate_Suc)
qed

section \<open>Dimensions that are not supported\<close>

lemma quad_nonpos: "h \<le> 0 \<Longrightarrow> quad q0 a di dj h = Inr (q0\<lparr>i := i a + di, j := j a + dj\<rparr>)"
  by (simp add: quad_view_fill view_fill_nonpos)

lemma add_nonpos: "h \<le> 0 \<Longrightarrow> add m0 a b h = Inr (m0\<lparr>i := i a, j := j a\<rparr>)"
  by (simp add: add_view_fill view_fill_nonpos)

lemma sub_nonpos: "h \<le> 0 \<Longrightarrow> sub m0 a b h = Inr (m0\<lparr>i := i a, j := j a\<rparr>)"
  by (simp add: sub_view_fill view_fill_nonpos)

lemma sdiv2_le_1: "n \<le> 1 \<Longrightarrow> n sdiv 2 \<le> 0" for n :: int
  by (auto simp: signed_divide_int_def sgn_if)

text \<open>
  With \<open>n\<close> at most 1 the half is at most 0, all loops are empty and the first
  recursive call is reached with a dimension that is again at most 1.
\<close>

lemma strassen_diverges:
  "n \<le> 1 \<Longrightarrow> strassen_matrix_multiply sf stk depth a b n = None"
proof (induction depth arbitrary: stk n a b)
  case 0
  show ?case by simp
next
  case (Suc d)
  have h: "n sdiv 2 \<le> 0" using Suc.prems by (rule sdiv2_le_1)
  then have h1: "n sdiv 2 \<le> 1" by simp
  have n2: "n \<noteq> 2" using Suc.prems by simp
  have rec: "strassen_matrix_multiply sf (frame stk ''M1'') d u v (n sdiv 2) = None" for u v
    by (rule Suc.IH [OF h1])
  show ?case
    unfolding strassen_matrix_multiply.simps(2) [of sf stk d a b n] Let_def
    using n2
    by (simp add: quad_nonpos [OF h] add_nonpos [OF h] rec)
qed

text \<open>
  For \<open>n = 3\<close> the quadrants have size 1 and the call for \<open>M1\<close>, with size 1, never
  returns: what can still happen before it is a failure of the copies or of the two
  additions.
\<close>

lemma strassen_3_no_result:
  "strassen_matrix_multiply sf stk depth a b 3 \<noteq> Some (Inr res)"
proof
  assume r: "strassen_matrix_multiply sf stk depth a b 3 = Some (Inr res)"
  then obtain d where d: "depth = Suc d" by (auto dest: strassen_depth_Suc)
  have n: "(3 :: int) \<noteq> 2" by simp
  from r [unfolded d] n obtain S1 T1 M1 where
    "strassen_matrix_multiply sf (frame stk ''M1'') d S1 T1 (3 sdiv 2) = Some (Inr M1)"
    by (rule strassen_rec_unfold)
  moreover have "strassen_matrix_multiply sf (frame stk ''M1'') d S1 T1 (3 sdiv 2) = None"
    by (rule strassen_diverges) simp
  ultimately show False by simp
qed

text \<open>
  A size above 16 never reaches \<open>strassen_matrix_multiply\<close> from \<open>main\<close>; every other
  size reaches it unchecked.
\<close>

lemma main_multiply_cases:
  "main_multiply sf stk depth m1 m2 n =
     (if 16 < n then Some (Inl InputTooLarge)
      else strassen_matrix_multiply sf stk depth m1 m2 n)"
  by (simp add: main_multiply_def check_n_def NUM_ELEMS_def)

text \<open>
  C2 as stated fails: for \<open>n = 3\<close> the call adds the 1 by 1 quadrants before anything
  else, and an overflow there is what it reports, in either order of evaluation.
\<close>

theorem strassen_n3_counterexample:
  "obind (strassen_matrix_multiply left_to_right zeroed_stack 1
     (input_matrix [[2147483647, 0, 0], [0, 1, 0], [0, 0, 0]])
     (input_matrix [[0, 0, 0], [0, 0, 0], [0, 0, 0]]) 3)
     (\<lambda>res. Some (Inr ()))
   = Some (Inl (ArithmeticOverflow Addition 2147483647 1))
   \<and> obind (strassen_matrix_multiply right_to_left zeroed_stack 1
     (input_matrix [[2147483647, 0, 0], [0, 1, 0], [0, 0, 0]])
     (input_matrix [[0, 0, 0], [0, 0, 0], [0, 0, 0]]) 3)
     (\<lambda>res. Some (Inr ()))
   = Some (Inl (ArithmeticOverflow Addition 2147483647 1))"
  by (rule conjI; code_simp)

text \<open>
  C2, amended. \<open>strassen_matrix_multiply\<close> validates nothing and has no failure for a
  dimension. With \<open>n\<close> at most 1 it never returns, at any depth bound; with \<open>n = 3\<close> it
  never returns a matrix. The only test of a dimension is that of \<open>main\<close>: a size above
  16 is refused there, before any arithmetic, and every size up to 16 is passed on as
  it is.
\<close>

theorem strassen_no_dimension_check:
  "(n \<le> 1 \<longrightarrow> strassen_matrix_multiply sf stk depth a b n = None)
   \<and> strassen_matrix_multiply sf stk depth a b 3 \<noteq> Some (Inr res)
   \<and> (16 < n \<longrightarrow> main_multiply sf stk depth a b n = Some (Inl InputTooLarge))
   \<and> (n \<le> 16 \<longrightarrow> main_multiply sf stk depth a b n
                    = strassen_matrix_multiply sf stk depth a b n)"
  using strassen_diverges [of n sf stk depth a b] strassen_3_no_result [of sf stk depth a b res]
  by (simp add: main_multiply_cases)

theorem strassen_no_dimension_check_witness:
  "strassen_matrix_multiply left_to_right zeroed_stack 7
      (input_matrix [[1, 2], [3, 4]]) (input_matrix [[5, 6], [7, 8]]) 0 = None
   \<and> main_multiply left_to_right zeroed_stack 7
      (input_matrix [[1, 2], [3, 4]]) (input_matrix [[5, 6], [7, 8]]) 17
       = Some (Inl InputTooLarge)
   \<and> main_multiply left_to_right zeroed_stack 7
      (input_matrix [[1, 2], [3, 4]]) (input_matrix [[5, 6], [7, 8]]) 0 = None"
proof -
  note T1 = strassen_no_dimension_check [THEN conjunct1, rule_format]
  note T3 = strassen_no_dimension_check [THEN conjunct2, THEN conjunct2, THEN conjunct1,
      rule_format]
  note T4 = strassen_no_dimension_check [THEN conjunct2, THEN conjunct2, THEN conjunct2,
      rule_format]
  have 1: "strassen_matrix_multiply left_to_right zeroed_stack 7
      (input_matrix [[1, 2], [3, 4]]) (input_matrix [[5, 6], [7, 8]]) 0 = None"
    by (rule T1) simp
  have 2: "main_multiply left_to_right zeroed_stack 7
      (input_matrix [[1, 2], [3, 4]]) (input_matrix [[5, 6], [7, 8]]) 17
       = Some (Inl InputTooLarge)"
    by (rule T3) simp
  have "main_multiply left_to_right zeroed_stack 7
      (input_matrix [[1, 2], [3, 4]]) (input_matrix [[5, 6], [7, 8]]) 0
      = strassen_matrix_multiply left_to_right zeroed_stack 7
      (input_matrix [[1, 2], [3, 4]]) (input_matrix [[5, 6], [7, 8]]) 0"
    by (rule T4) simp
  with 1 2 show ?thesis by simp
qed

section \<open>The returned cells on a stack that is clean below\<close>

lemma upto_shift: "map (\<lambda>k. d + k) [a..b] = [d + a..d + b]"
proof (induction a b rule: upto.induct)
  case (1 a b)
  show ?case
  proof (cases "a \<le> b")
    case True
    then have "[a..b] = a # [a + 1..b]" and "[d + a..d + b] = (d + a) # [d + a + 1..d + b]"
      by (simp_all add: upto_rec1)
    with 1 [OF True] show ?thesis by (simp add: add.assoc)
  next
    case False
    then show ?thesis by simp
  qed
qed

lemma upto_halves: "0 \<le> h \<Longrightarrow> [0..2 * h - 1] = [0..h - 1] @ map (\<lambda>k. h + k) [0..h - 1]"
proof -
  assume h: "0 \<le> h"
  have "[0..2 * h - 1] = [0..h - 1] @ [h..2 * h - 1]"
  proof (cases "h = 0")
    case True
    then show ?thesis by simp
  next
    case False
    with h upto_split2 [of 0 "h - 1" "2 * h - 1"] show ?thesis by simp
  qed
  also have "[h..2 * h - 1] = map (\<lambda>k. h + k) [0..h - 1]"
    using upto_shift [of h 0 "h - 1"] by (simp add: algebra_simps)
  finally show ?thesis .
qed

lemma dot_split:
  "0 \<le> h \<Longrightarrow> dot F G (2 * h) r c
     = dot F G h r c + dot (\<lambda>r c. F r (h + c)) (\<lambda>r c. G (h + r) c) h r c"
  by (simp add: dot_def upto_halves comp_def)

lemma dot_add_left:
  "dot (\<lambda>r c. f r c + f' r c) g n r c = dot f g n r c + dot f' g n r c"
  by (simp add: dot_def distrib_right sum_list_addf)

lemma dot_sub_left:
  "dot (\<lambda>r c. f r c - f' r c) g n r c = dot f g n r c - dot f' g n r c"
  by (simp add: dot_def left_diff_distrib sum_list_subtractf)

lemma dot_add_right:
  "dot f (\<lambda>r c. g r c + g' r c) n r c = dot f g n r c + dot f g' n r c"
  by (simp add: dot_def distrib_left sum_list_addf)

lemma dot_sub_right:
  "dot f (\<lambda>r c. g r c - g' r c) n r c = dot f g n r c - dot f g' n r c"
  by (simp add: dot_def right_diff_distrib sum_list_subtractf)

lemmas dot_linear = dot_add_left dot_sub_left dot_add_right dot_sub_right

lemma dot_2: "dot F G 2 r c = F r 0 * G 0 c + F r 1 * G 1 c"
  by (simp add: dot_def upto_0_1)


lemma dot_blocks:
  assumes "0 \<le> h"
  shows "dot F G (2 * h) r c
      = dot (\<lambda>r c. F r c) (\<lambda>r c. G r c) h r c
        + dot (\<lambda>r c. F r (h + c)) (\<lambda>r c. G (h + r) c) h r c"
    and "dot F G (2 * h) r (h + c)
      = dot (\<lambda>r c. F r c) (\<lambda>r c. G r (h + c)) h r c
        + dot (\<lambda>r c. F r (h + c)) (\<lambda>r c. G (h + r) (h + c)) h r c"
    and "dot F G (2 * h) (h + r) c
      = dot (\<lambda>r c. F (h + r) c) (\<lambda>r c. G r c) h r c
        + dot (\<lambda>r c. F (h + r) (h + c)) (\<lambda>r c. G (h + r) c) h r c"
    and "dot F G (2 * h) (h + r) (h + c)
      = dot (\<lambda>r c. F (h + r) c) (\<lambda>r c. G r (h + c)) h r c
        + dot (\<lambda>r c. F (h + r) (h + c)) (\<lambda>r c. G (h + r) (h + c)) h r c"
  using assms by (simp_all add: dot_def upto_halves comp_def)

text \<open>
  Strassen's identities for seven block products, in the ring of 32-bit words, where
  they hold with wrap-around.
\<close>

lemma strassen_identities:
  fixes a00 a01 a10 a11 b00 b01 b10 b11 :: "int \<Rightarrow> int \<Rightarrow> cint"
  shows "dot (\<lambda>r c. a00 r c + a11 r c) (\<lambda>r c. b00 r c + b11 r c) h r c
       + dot a11 (\<lambda>r c. b10 r c - b00 r c) h r c
       - dot (\<lambda>r c. a00 r c + a01 r c) b11 h r c
       + dot (\<lambda>r c. a01 r c - a11 r c) (\<lambda>r c. b10 r c + b11 r c) h r c
     = dot a00 b00 h r c + dot a01 b10 h r c"
    and "dot a00 (\<lambda>r c. b01 r c - b11 r c) h r c
       + dot (\<lambda>r c. a00 r c + a01 r c) b11 h r c
     = dot a00 b01 h r c + dot a01 b11 h r c"
    and "dot (\<lambda>r c. a10 r c + a11 r c) b00 h r c
       + dot a11 (\<lambda>r c. b10 r c - b00 r c) h r c
     = dot a10 b00 h r c + dot a11 b10 h r c"
    and "dot (\<lambda>r c. a00 r c + a11 r c) (\<lambda>r c. b00 r c + b11 r c) h r c
       - dot (\<lambda>r c. a10 r c + a11 r c) b00 h r c
       + dot a00 (\<lambda>r c. b01 r c - b11 r c) h r c
       + dot (\<lambda>r c. a10 r c - a00 r c) (\<lambda>r c. b00 r c + b01 r c) h r c
     = dot a10 b01 h r c + dot a11 b11 h r c"
  by (simp_all add: dot_linear)


text \<open>
  For sizes \<open>2 * 2 ^ k\<close>: whenever the call returns a matrix, the result holds the
  product of the two input views, computed with wrap-around. For size 2 the product is
  read through the offsets of the result, for larger sizes it lies in rows and columns
  \<open>[0, n)\<close>. For sizes from 8 on this needs a stack that is clean below the outermost
  call, so that the results of the recursive calls are read where they were written.
\<close>

lemma strassen_cells:
  assumes "strassen_matrix_multiply sf stk depth a b n = Some (Inr res)"
    and "n = 2 * 2 ^ k" and "2 \<le> k \<Longrightarrow> clean_below stk"
    and "view_is a n F" "view_is b n G"
  shows "(k = 0 \<longrightarrow> view_is res n (dot F G n))
       \<and> (0 < k \<longrightarrow> (\<forall>r c. 0 \<le> r \<and> r < n \<and> 0 \<le> c \<and> c < n \<longrightarrow> m res r c = dot F G n r c))"
  using assms
proof (induction k arbitrary: stk depth a b n res F G)
  case 0
  then have n: "n = 2" by simp
  from 0 n have s: "strassen_2x2 (junk stk ''c'') a b = Inr res"
    by (auto dest: strassen_base_Inr)
  from base_view_is [OF s] 0(4,5) n
  have "view_is res 2 (\<lambda>r c. F r 0 * G 0 c + F r 1 * G 1 c)" by simp
  then show ?case by (simp add: n view_is_def dot_2)
next
  case (Suc k)
  define h :: int where "h = 2 * 2 ^ k"
  have n: "n = 2 * h" and h2: "2 \<le> h" using Suc.prems(2) by (simp_all add: h_def)
  have hs: "n sdiv 2 = h" using n h2 by (simp add: signed_divide_int_def sgn_if)
  have n2: "n \<noteq> 2" using n h2 by simp
  have hh: "0 \<le> h" "(0 :: int) \<le> 0" "0 + h \<le> n" "h + h \<le> n" using n h2 by simp_all
  note va = Suc.prems(4) and vb = Suc.prems(5)
  from Suc.prems(1) obtain d where d: "depth = Suc d" by (auto dest: strassen_depth_Suc)
  have recv: "view_is M h (dot Fu Gv h)"
    if call: "strassen_matrix_multiply sf (frame stk x) d u v h = Some (Inr M)"
      and vu: "view_is u h Fu" and vv: "view_is v h Gv" for x u v M Fu Gv
  proof -
    have cl: "clean_below (frame stk x)" if "2 \<le> k"
      using that Suc.prems(3) clean_below_frame(1) by simp
    from Suc.IH [OF call h_def cl vu vv]
    have M0: "k = 0 \<longrightarrow> view_is M h (dot Fu Gv h)"
      and Mk: "0 < k \<longrightarrow> (\<forall>r c. 0 \<le> r \<and> r < h \<and> 0 \<le> c \<and> c < h
                    \<longrightarrow> m M r c = dot Fu Gv h r c)"
      by blast+
    show ?thesis
    proof (cases "k = 0")
      case True
      with M0 show ?thesis by simp
    next
      case False
      then have k: "0 < k" by simp
      then have "(2 :: int) ^ 1 \<le> 2 ^ k" by (intro power_increasing) simp_all
      then have hn: "h \<noteq> 2" by (simp add: h_def)
      from strassen_rec_Inr(2,3,5) [OF call hn]
      have o: "i M = i (junk (frame stk x) ''res'')" "j M = j (junk (frame stk x) ''res'')"
        and h16: "h \<le> 16" .
      from k have "2 \<le> Suc k" by simp
      from clean_below_frame(2,3) [OF Suc.prems(3) [OF this], of x] o
      have o0: "i M = 0" "j M = 0" by simp_all
      show ?thesis
        unfolding view_is_def
        using Mk k h16 o0 by (simp add: elem_eq_Inr_iff in_bounds_def NUM_ELEMS_def)
    qed
  qed
  from Suc.prems(1) [unfolded d] n2
  obtain A00 A01 A10 A11 B00 B01 B10 B11 S1 T1 S2 T3 T4 S5 S6 T6 S7 T7
    M1 M2 M3 M4 M5 M6 M7 U1 U2 Q1 Q2 Q3 U3 U4 Q4
    where q: "quad (junk stk ''A00'') a 0 0 (n sdiv 2) = Inr A00"
      "quad (junk stk ''A01'') a 0 (n sdiv 2) (n sdiv 2) = Inr A01"
      "quad (junk stk ''A10'') a (n sdiv 2) 0 (n sdiv 2) = Inr A10"
      "quad (junk stk ''A11'') a (n sdiv 2) (n sdiv 2) (n sdiv 2) = Inr A11"
      "quad (junk stk ''B00'') b 0 0 (n sdiv 2) = Inr B00"
      "quad (junk stk ''B01'') b 0 (n sdiv 2) (n sdiv 2) = Inr B01"
      "quad (junk stk ''B10'') b (n sdiv 2) 0 (n sdiv 2) = Inr B10"
      "quad (junk stk ''B11'') b (n sdiv 2) (n sdiv 2) (n sdiv 2) = Inr B11"
    and p1: "add (junk stk ''M1.a'') A00 A11 (n sdiv 2) = Inr S1"
      "add (junk stk ''M1.b'') B00 B11 (n sdiv 2) = Inr T1"
      "strassen_matrix_multiply sf (frame stk ''M1'') d S1 T1 (n sdiv 2) = Some (Inr M1)"
    and p2: "add (junk stk ''M2.a'') A10 A11 (n sdiv 2) = Inr S2"
      "strassen_matrix_multiply sf (frame stk ''M2'') d S2 B00 (n sdiv 2) = Some (Inr M2)"
    and p3: "sub (junk stk ''M3.b'') B01 B11 (n sdiv 2) = Inr T3"
      "strassen_matrix_multiply sf (frame stk ''M3'') d A00 T3 (n sdiv 2) = Some (Inr M3)"
    and p4: "sub (junk stk ''M4.b'') B10 B00 (n sdiv 2) = Inr T4"
      "strassen_matrix_multiply sf (frame stk ''M4'') d A11 T4 (n sdiv 2) = Some (Inr M4)"
    and p5: "add (junk stk ''M5.a'') A00 A01 (n sdiv 2) = Inr S5"
      "strassen_matrix_multiply sf (frame stk ''M5'') d S5 B11 (n sdiv 2) = Some (Inr M5)"
    and p6: "sub (junk stk ''M6.a'') A10 A00 (n sdiv 2) = Inr S6"
      "add (junk stk ''M6.b'') B00 B01 (n sdiv 2) = Inr T6"
      "strassen_matrix_multiply sf (frame stk ''M6'') d S6 T6 (n sdiv 2) = Some (Inr M6)"
    and p7: "sub (junk stk ''M7.a'') A01 A11 (n sdiv 2) = Inr S7"
      "add (junk stk ''M7.b'') B10 B11 (n sdiv 2) = Inr T7"
      "strassen_matrix_multiply sf (frame stk ''M7'') d S7 T7 (n sdiv 2) = Some (Inr M7)"
    and c1: "add (junk stk ''Q1.1'') M1 M4 (n sdiv 2) = Inr U1"
      "sub (junk stk ''Q1.2'') U1 M5 (n sdiv 2) = Inr U2"
      "add (junk stk ''Q1'') U2 M7 (n sdiv 2) = Inr Q1"
    and c2: "add (junk stk ''Q2'') M3 M5 (n sdiv 2) = Inr Q2"
    and c3: "add (junk stk ''Q3'') M2 M4 (n sdiv 2) = Inr Q3"
    and c4: "sub (junk stk ''Q4.1'') M1 M2 (n sdiv 2) = Inr U3"
      "add (junk stk ''Q4.2'') U3 M3 (n sdiv 2) = Inr U4"
      "add (junk stk ''Q4'') U4 M6 (n sdiv 2) = Inr Q4"
    and asm: "assemble (junk stk ''res'') Q1 Q2 Q3 Q4 n = Inr res"
    by (rule strassen_rec_unfold)
  note q = q [unfolded hs] and p1 = p1 [unfolded hs] and p2 = p2 [unfolded hs]
    and p3 = p3 [unfolded hs] and p4 = p4 [unfolded hs] and p5 = p5 [unfolded hs]
    and p6 = p6 [unfolded hs] and p7 = p7 [unfolded hs] and c1 = c1 [unfolded hs]
    and c2 = c2 [unfolded hs] and c3 = c3 [unfolded hs] and c4 = c4 [unfolded hs]
  have vA00: "view_is A00 h (\<lambda>r c. F r c)"
    using quad_view_is [OF q(1) va] hh by simp
  have vA01: "view_is A01 h (\<lambda>r c. F r (h + c))"
    using quad_view_is [OF q(2) va] hh by simp
  have vA10: "view_is A10 h (\<lambda>r c. F (h + r) c)"
    using quad_view_is [OF q(3) va] hh by simp
  have vA11: "view_is A11 h (\<lambda>r c. F (h + r) (h + c))"
    using quad_view_is [OF q(4) va] hh by simp
  have vB00: "view_is B00 h (\<lambda>r c. G r c)"
    using quad_view_is [OF q(5) vb] hh by simp
  have vB01: "view_is B01 h (\<lambda>r c. G r (h + c))"
    using quad_view_is [OF q(6) vb] hh by simp
  have vB10: "view_is B10 h (\<lambda>r c. G (h + r) c)"
    using quad_view_is [OF q(7) vb] hh by simp
  have vB11: "view_is B11 h (\<lambda>r c. G (h + r) (h + c))"
    using quad_view_is [OF q(8) vb] hh by simp
  note vM1 = recv [OF p1(3) add_view_is [OF p1(1) vA00 vA11] add_view_is [OF p1(2) vB00 vB11]]
  note vM2 = recv [OF p2(2) add_view_is [OF p2(1) vA10 vA11] vB00]
  note vM3 = recv [OF p3(2) vA00 sub_view_is [OF p3(1) vB01 vB11]]
  note vM4 = recv [OF p4(2) vA11 sub_view_is [OF p4(1) vB10 vB00]]
  note vM5 = recv [OF p5(2) add_view_is [OF p5(1) vA00 vA01] vB11]
  note vM6 = recv [OF p6(3) sub_view_is [OF p6(1) vA10 vA00] add_view_is [OF p6(2) vB00 vB01]]
  note vM7 = recv [OF p7(3) sub_view_is [OF p7(1) vA01 vA11] add_view_is [OF p7(2) vB10 vB11]]
  note vQ1 = add_view_is [OF c1(3) sub_view_is [OF c1(2) add_view_is [OF c1(1) vM1 vM4] vM5] vM7]
  note vQ2 = add_view_is [OF c2 vM3 vM5]
  note vQ3 = add_view_is [OF c3 vM2 vM4]
  note vQ4 = add_view_is [OF c4(3) add_view_is [OF c4(2) sub_view_is [OF c4(1) vM1 vM2] vM3] vM6]
  note cells = assemble_cells [OF asm, unfolded hs]
  note id1 = strassen_identities(1) [where ?a00.0 = "\<lambda>r c. F r c" and ?a01.0 = "\<lambda>r c. F r (h + c)"
      and ?a11.0 = "\<lambda>r c. F (h + r) (h + c)" and ?b00.0 = "\<lambda>r c. G r c"
      and ?b10.0 = "\<lambda>r c. G (h + r) c" and ?b11.0 = "\<lambda>r c. G (h + r) (h + c)" and h = h]
  note id2 = strassen_identities(2) [where ?a00.0 = "\<lambda>r c. F r c" and ?a01.0 = "\<lambda>r c. F r (h + c)"
      and ?b01.0 = "\<lambda>r c. G r (h + c)" and ?b11.0 = "\<lambda>r c. G (h + r) (h + c)" and h = h]
  note id3 = strassen_identities(3) [where ?a10.0 = "\<lambda>r c. F (h + r) c"
      and ?a11.0 = "\<lambda>r c. F (h + r) (h + c)" and ?b00.0 = "\<lambda>r c. G r c"
      and ?b10.0 = "\<lambda>r c. G (h + r) c" and h = h]
  note id4 = strassen_identities(4) [where ?a00.0 = "\<lambda>r c. F r c" and ?a10.0 = "\<lambda>r c. F (h + r) c"
      and ?a11.0 = "\<lambda>r c. F (h + r) (h + c)" and ?b00.0 = "\<lambda>r c. G r c"
      and ?b01.0 = "\<lambda>r c. G r (h + c)" and ?b11.0 = "\<lambda>r c. G (h + r) (h + c)" and h = h]
  have "m res r c = dot F G n r c" if rc: "0 \<le> r \<and> r < n \<and> 0 \<le> c \<and> c < n" for r c
  proof -
    consider (q1) "r < h" "c < h" | (q2) "r < h" "h \<le> c" | (q3) "h \<le> r" "c < h"
      | (q4) "h \<le> r" "h \<le> c"
      by linarith
    then show ?thesis
    proof cases
      case q1
      from rc q1 cells(1) [of r c] view_isD [OF vQ1, of r c]
      have "m res r c = dot (\<lambda>r c. F r c) (\<lambda>r c. G r c) h r c
          + dot (\<lambda>r c. F r (h + c)) (\<lambda>r c. G (h + r) c) h r c"
        by (simp add: id1)
      with dot_blocks(1) [OF hh(1), of F G r c] show ?thesis by (simp add: n)
    next
      case q2
      from rc q2 n cells(2) [of r c] view_isD [OF vQ2, of r "c - h"]
      have "m res r c = dot (\<lambda>r c. F r c) (\<lambda>r c. G r (h + c)) h r (c - h)
          + dot (\<lambda>r c. F r (h + c)) (\<lambda>r c. G (h + r) (h + c)) h r (c - h)"
        by (simp add: id2)
      with dot_blocks(2) [OF hh(1), of F G r "c - h"] show ?thesis by (simp add: n)
    next
      case q3
      from rc q3 n cells(3) [of r c] view_isD [OF vQ3, of "r - h" c]
      have "m res r c = dot (\<lambda>r c. F (h + r) c) (\<lambda>r c. G r c) h (r - h) c
          + dot (\<lambda>r c. F (h + r) (h + c)) (\<lambda>r c. G (h + r) c) h (r - h) c"
        by (simp add: id3)
      with dot_blocks(3) [OF hh(1), of F G "r - h" c] show ?thesis by (simp add: n)
    next
      case q4
      from rc q4 n cells(4) [of r c] view_isD [OF vQ4, of "r - h" "c - h"]
      have "m res r c = dot (\<lambda>r c. F (h + r) c) (\<lambda>r c. G r (h + c)) h (r - h) (c - h)
          + dot (\<lambda>r c. F (h + r) (h + c)) (\<lambda>r c. G (h + r) (h + c)) h (r - h) (c - h)"
        by (simp add: id4)
      with dot_blocks(4) [OF hh(1), of F G "r - h" "c - h"] show ?thesis by (simp add: n)
    qed
  qed
  then show ?case by simp
qed


text \<open>
  For the sizes 2, 4, 8 and 16, inputs at offsets zero and a stack that is clean below:
  whenever the call returns a matrix, its cells in rows and columns \<open>[0, n)\<close> are those
  that the standard multiplication computes.
\<close>

lemma strassen_agrees_with_naive:
  assumes s: "strassen_matrix_multiply sf stk depth a b n = Some (Inr res)"
    and n: "n = 2 * 2 ^ k" and cl: "2 \<le> k \<Longrightarrow> clean_below stk"
    and o: "i a = 0" "j a = 0" "i b = 0" "j b = 0"
  shows "\<exists>res'. multiply_naive a b m3 n = Inr res'
           \<and> (\<forall>r c. 0 \<le> r \<and> r < n \<and> 0 \<le> c \<and> c < n \<longrightarrow> m res r c = m res' r c)"
proof -
  have n16: "n \<le> 16"
  proof (cases "n = 2")
    case True
    then show ?thesis by simp
  next
    case False
    from strassen_rec_Inr(5) [OF s this] show ?thesis .
  qed
  have va: "view_is a n (m a)" and vb: "view_is b n (m b)"
    using n16 o by (simp_all add: view_is_def elem_eq_Inr_iff in_bounds_def NUM_ELEMS_def)
  from multiply_naive_values [OF n16, of a b m3] obtain res' where
    r': "multiply_naive a b m3 n = Inr res'"
    and c': "\<And>r c. 0 \<le> r \<and> r < n \<and> 0 \<le> c \<and> c < n \<Longrightarrow> m res' r c = dot (m a) (m b) n r c"
    by (auto simp: dot_def)
  note sc = strassen_cells [OF s n cl va vb]
  have "m res r c = dot (m a) (m b) n r c" if rc: "0 \<le> r \<and> r < n \<and> 0 \<le> c \<and> c < n" for r c
  proof (cases "k = 0")
    case True
    with n have n2: "n = 2" by simp
    from s n2 have "strassen_2x2 (junk stk ''c'') a b = Inr res"
      by (auto dest: strassen_base_Inr)
    from strassen_2x2_Inr(1,2) [OF this] o have ro: "i res = 0" "j res = 0" by simp_all
    from sc True have "view_is res n (dot (m a) (m b) n)" by simp
    from view_isD [OF this, of r c] rc ro show ?thesis by (simp add: elem_eq_Inr_iff)
  next
    case False
    with sc rc show ?thesis by simp
  qed
  with r' c' show ?thesis by auto
qed

end
